theory Spec2Isabelle
  imports Complex_Main "HOL-Library.AList"
begin

section \<open>Data model\<close>

text \<open>
  The reporter reads flat test results and republishes them to Azure DevOps. The
  development below embeds \<^verbatim>\<open>azure_devops_result_publisher.py\<close>: the grouping of
  data-driven tests (\<^verbatim>\<open>convert_results\<close>) and the attachment pass of
  \<^verbatim>\<open>publish_results\<close>.

  Durations are Python floats in the source. They are only copied and multiplied by 1000;
  they are modelled as reals, and no statement below depends on rounding.
\<close>

text \<open>
  Modelled from the spec: the classes \<^verbatim>\<open>TestResult\<close> and
  \<^verbatim>\<open>TestResultAttachment\<close> of \<^verbatim>\<open>defs.py\<close>, which is not part of the
  sources at hand. The fields are those of the constructor calls in
  \<^verbatim>\<open>formats/junit.py\<close>, in that order, and of the data model of the specification.
  The stack trace of a record is called \<open>r_stack_trace\<close>, since the published node has a
  field of the same name. The text of an attachment is what the XML element holds, which
  is \<^verbatim>\<open>None\<close> for an empty element.
\<close>

record TestResultAttachment =
  att_name :: string
  att_text :: "string option"

record TestResult =
  name :: string
  kind :: string
  type_name :: string
  method_name :: string
  duration_seconds :: real
  result :: string
  exception_type :: "string option"
  failure_message :: "string option"
  r_stack_trace :: "string option"
  skip_reason :: "string option"
  attachments :: "TestResultAttachment list"

text \<open>
  \<^verbatim>\<open>TestSubResult\<close> and \<^verbatim>\<open>TestCaseResult\<close> are model classes of the Azure
  DevOps client; every field is optional there. Only the fields the publisher writes or
  reads are kept. The identifiers are assigned by the service, so they are absent on a
  freshly converted node.
\<close>

record TestSubResult =
  sr_comment :: string
  display_name :: string
  sr_duration_in_ms :: real
  sr_outcome :: string
  sr_stack_trace :: "string option"
  sr_error_message :: "string option"
  sr_id :: "int option"

record TestCaseResult =
  test_case_title :: string
  automated_test_name :: string
  automated_test_type :: string
  automated_test_storage :: string
  priority :: int
  duration_in_ms :: real
  outcome :: string
  state :: string
  error_message :: "string option"
  stack_trace :: "string option"
  comment :: string
  result_group_type :: "string option"
  sub_results :: "TestSubResult list option"
  result_id :: "int option"

text \<open>
  What the publisher object and the process environment contribute to a conversion:
  \<^verbatim>\<open>self.work_item_name\<close> and the two variables read by \<^verbatim>\<open>os.getenv\<close>.
\<close>

record publisher =
  work_item_name :: string
  HELIX_CORRELATION_ID :: "string option"
  HELIX_WORKITEM_FRIENDLYNAME :: "string option"

datatype error = KeyError string | AttributeError | TypeError

section \<open>Strings\<close>

text \<open>\<^verbatim>\<open>text\<close> is \<^verbatim>\<open>str\<close>: the identity on a string, \<^verbatim>\<open>"None"\<close> on \<^verbatim>\<open>None\<close>.\<close>

fun text_of :: "string option \<Rightarrow> string" where
  "text_of None = ''None''"
| "text_of (Some s) = s"

text \<open>\<^verbatim>\<open>s.endswith(suffix)\<close>.\<close>

definition endswith :: "string \<Rightarrow> string \<Rightarrow> bool" where
  "endswith s suffix \<longleftrightarrow>
     length suffix \<le> length s \<and> drop (length s - length suffix) s = suffix"

text \<open>
  \<^verbatim>\<open>s.split(sep, 1)\<close> for a separator of one character: the text before the first
  separator and the text after it, or the string alone when it has no separator.
\<close>

fun split_once :: "char \<Rightarrow> string \<Rightarrow> string list" where
  "split_once sep [] = [[]]"
| "split_once sep (c # cs) =
     (if c = sep then [[], cs]
      else (case split_once sep cs of
              [] \<Rightarrow> [[c]]
            | p # ps \<Rightarrow> (c # p) # ps))"

definition is_data_driven_test :: "string \<Rightarrow> bool" where
  "is_data_driven_test r = endswith r '')''"

definition get_ddt_base_name :: "string \<Rightarrow> string" where
  "get_ddt_base_name r = split_once (CHR ''('') r ! 0"

section \<open>Conversion of one record\<close>

definition comment_of :: "publisher \<Rightarrow> string" where
  \<open>comment_of self =
     ''{ "HelixJobId": "'' @ text_of (HELIX_CORRELATION_ID self) @
     ''", "HelixWorkItemName": "'' @ text_of (HELIX_WORKITEM_FRIENDLYNAME self) @ ''" }''\<close>

definition convert_to_sub_test :: "publisher \<Rightarrow> TestResult \<Rightarrow> TestSubResult option" where
  "convert_to_sub_test self r =
     (if result r = ''Pass'' then
        Some \<lparr>sr_comment = comment_of self, display_name = name r,
              sr_duration_in_ms = duration_seconds r * 1000, sr_outcome = ''Passed'',
              sr_stack_trace = None, sr_error_message = None, sr_id = None\<rparr>
      else if result r = ''Fail'' then
        Some \<lparr>sr_comment = comment_of self, display_name = name r,
              sr_duration_in_ms = duration_seconds r * 1000, sr_outcome = ''Failed'',
              sr_stack_trace = r_stack_trace r,
              sr_error_message = Some (text_of (failure_message r)), sr_id = None\<rparr>
      else if result r = ''Skip'' then
        Some \<lparr>sr_comment = comment_of self, display_name = name r,
              sr_duration_in_ms = duration_seconds r * 1000, sr_outcome = ''NotExecuted'',
              sr_stack_trace = None, sr_error_message = None, sr_id = None\<rparr>
      else None)"

definition convert_result :: "publisher \<Rightarrow> TestResult \<Rightarrow> TestCaseResult option" where
  "convert_result self r =
     (if result r = ''Pass'' then
        Some \<lparr>test_case_title = name r, automated_test_name = name r,
              automated_test_type = kind r, automated_test_storage = work_item_name self,
              priority = 1, duration_in_ms = duration_seconds r * 1000,
              outcome = ''Passed'', state = ''Completed'', error_message = None,
              stack_trace = None, comment = comment_of self, result_group_type = None,
              sub_results = None, result_id = None\<rparr>
      else if result r = ''Fail'' then
        Some \<lparr>test_case_title = name r, automated_test_name = name r,
              automated_test_type = kind r, automated_test_storage = work_item_name self,
              priority = 1, duration_in_ms = duration_seconds r * 1000,
              outcome = ''Failed'', state = ''Completed'',
              error_message = Some (text_of (failure_message r)),
              stack_trace = r_stack_trace r, comment = comment_of self,
              result_group_type = None, sub_results = None, result_id = None\<rparr>
      else if result r = ''Skip'' then
        Some \<lparr>test_case_title = name r, automated_test_name = name r,
              automated_test_type = kind r, automated_test_storage = work_item_name self,
              priority = 1, duration_in_ms = duration_seconds r * 1000,
              outcome = ''NotExecuted'', state = ''Completed'',
              error_message = Some (text_of (skip_reason r)),
              stack_trace = None, comment = comment_of self, result_group_type = None,
              sub_results = None, result_id = None\<rparr>
      else None)"

section \<open>The grouping loop of \<^verbatim>\<open>convert_results\<close>\<close>

text \<open>
  The three locals of the loop. \<^verbatim>\<open>data_driven_tests\<close> is a dictionary whose values
  are listed at the end, so the order of its keys matters: it is an association list
  that grows at the end, and \<open>AList.update\<close> replaces the value of a key already there in
  place. \<^verbatim>\<open>non_data_driven_tests\<close> receives whatever \<^verbatim>\<open>convert_result\<close> returns,
  \<^verbatim>\<open>None\<close> included. \<^verbatim>\<open>test_name_ordering\<close> is only ever looked up by key.
\<close>

record conversion =
  data_driven_tests :: "(string \<times> TestCaseResult) list"
  non_data_driven_tests :: "TestCaseResult option list"
  test_name_ordering :: "string \<rightharpoonup> string list"

definition start :: conversion where
  "start = \<lparr>data_driven_tests = [], non_data_driven_tests = [],
            test_name_ordering = Map.empty\<rparr>"

text \<open>
  One turn of the loop. Indexing a dictionary with an absent key and appending to a
  \<^verbatim>\<open>sub_results\<close> that is \<^verbatim>\<open>None\<close> raise; an exception leaves the function, so
  the locals are lost with it.
\<close>

definition loop_body :: "publisher \<Rightarrow> TestResult option \<Rightarrow> conversion \<Rightarrow> error + conversion" where
  "loop_body self ro s =
     (case ro of
        None \<Rightarrow> Inr s
      | Some r \<Rightarrow>
          if \<not> is_data_driven_test (name r) then
            Inr (s\<lparr>non_data_driven_tests := non_data_driven_tests s @ [convert_result self r],
                   test_name_ordering := (test_name_ordering s)(name r \<mapsto> [])\<rparr>)
          else
            let base_name = get_ddt_base_name (name r) in
            (case map_of (data_driven_tests s) base_name of
               Some parent \<Rightarrow>
                 (case convert_to_sub_test self r of
                    None \<Rightarrow> Inr s
                  | Some sub_test \<Rightarrow>
                      (case sub_results parent of
                         None \<Rightarrow> Inl AttributeError
                       | Some subs \<Rightarrow>
                           (case test_name_ordering s base_name of
                              None \<Rightarrow> Inl (KeyError base_name)
                            | Some names \<Rightarrow>
                                let appended = parent\<lparr>sub_results := Some (subs @ [sub_test])\<rparr>;
                                    marked = (if sr_outcome sub_test = ''Failed''
                                              then appended\<lparr>outcome := ''Failed''\<rparr>
                                              else appended)
                                in Inr (s\<lparr>data_driven_tests :=
                                            AList.update base_name marked (data_driven_tests s),
                                          test_name_ordering :=
                                            (test_name_ordering s)(base_name \<mapsto> names @ [name r])\<rparr>))))
             | None \<Rightarrow>
                 (case convert_result self r of
                    None \<Rightarrow> Inr s
                  | Some cr \<Rightarrow>
                      (case convert_to_sub_test self r of
                         None \<Rightarrow> Inr s
                       | Some csr \<Rightarrow>
                           Inr (s\<lparr>data_driven_tests := data_driven_tests s @
                                     [(base_name,
                                       cr\<lparr>automated_test_name := base_name,
                                          result_group_type := Some ''dataDriven'',
                                          sub_results := Some [csr]\<rparr>)],
                                  test_name_ordering :=
                                     (test_name_ordering s)(base_name \<mapsto> [name r])\<rparr>)))))"

fun convert_loop :: "publisher \<Rightarrow> TestResult option list \<Rightarrow> conversion \<Rightarrow> error + conversion" where
  "convert_loop self [] s = Inr s"
| "convert_loop self (r # rs) s =
     (case loop_body self r s of
        Inl e \<Rightarrow> Inl e
      | Inr s' \<Rightarrow> convert_loop self rs s')"

definition convert_results ::
  "publisher \<Rightarrow> TestResult option list
     \<Rightarrow> error + (TestCaseResult option list \<times> (string \<rightharpoonup> string list))" where
  "convert_results self results =
     (case convert_loop self results start of
        Inl e \<Rightarrow> Inl e
      | Inr s \<Rightarrow> Inr (map (Some \<circ> snd) (data_driven_tests s) @ non_data_driven_tests s,
                      test_name_ordering s))"

section \<open>The attachment pass of \<^verbatim>\<open>publish_results\<close>\<close>

text \<open>
  The calls to the service and to the logger are recorded as events, in the order in which
  they are made. The request for an attachment carries its file name and the base64 form
  of its text; the event keeps the text itself. Project and run are the same for every
  call of one publisher and are left out. A run of statements is the list of its events
  and the exception that ended it, if any. Failures of the transport are outside the
  model: a recorded call is a call that returned.
\<close>

datatype event =
    Debug string
  | Warning string
  | Create_test_result_attachment string string "int option"
  | Create_test_sub_result_attachment string string "int option" "int option"

text \<open>
  Two runs in sequence: the second one happens only when the first one raised nothing.
\<close>

definition then_run ::
  "event list \<times> error option \<Rightarrow> event list \<times> error option \<Rightarrow> event list \<times> error option" where
  "then_run a b = (case snd a of None \<Rightarrow> (fst a @ fst b, snd b) | Some e \<Rightarrow> a)"

text \<open>
  \<^verbatim>\<open>send_attachment\<close>: under Python 3 \<^verbatim>\<open>b64encode\<close> of a \<^verbatim>\<open>str\<close> raises
  \<^verbatim>\<open>TypeError\<close>, and the handler encodes \<^verbatim>\<open>bytes(attachment.text, "utf-8")\<close>, which
  raises \<^verbatim>\<open>TypeError\<close> again when the text is \<^verbatim>\<open>None\<close>. \<^verbatim>\<open>send_sub_attachment\<close>
  has only the second encoding.
\<close>

definition send_attachment :: "TestResultAttachment \<Rightarrow> TestCaseResult \<Rightarrow> error + event" where
  "send_attachment attachment published_result =
     (case att_text attachment of
        None \<Rightarrow> Inl TypeError
      | Some t \<Rightarrow>
          Inr (Create_test_result_attachment (att_name attachment) t
                 (result_id published_result)))"

definition send_sub_attachment ::
  "TestResultAttachment \<Rightarrow> TestCaseResult \<Rightarrow> int option \<Rightarrow> error + event" where
  "send_sub_attachment attachment published_result sub_result_id =
     (case att_text attachment of
        None \<Rightarrow> Inl TypeError
      | Some t \<Rightarrow>
          Inr (Create_test_sub_result_attachment (att_name attachment) t
                 (result_id published_result) sub_result_id))"

text \<open>The loop \<^verbatim>\<open>for attachment in result.attachments\<close>, for either way of sending.\<close>

fun send_each ::
  "(TestResultAttachment \<Rightarrow> error + event) \<Rightarrow> TestResultAttachment list
     \<Rightarrow> event list \<times> error option" where
  "send_each send [] = ([], None)"
| "send_each send (attachment # rest) =
     (case send attachment of
        Inl e \<Rightarrow> ([], Some e)
      | Inr ev \<Rightarrow> then_run ([ev], None) (send_each send rest))"

text \<open>The body of the inner loop over the zipped names and sub-results, and the loop.\<close>

definition pair_attachments ::
  "(string \<rightharpoonup> TestResult) \<Rightarrow> TestCaseResult \<Rightarrow> string \<times> TestSubResult
     \<Rightarrow> event list \<times> error option" where
  "pair_attachments results_with_attachments published_result p =
     (case results_with_attachments (fst p) of
        None \<Rightarrow> ([], None)
      | Some r \<Rightarrow>
          send_each
            (\<lambda>attachment. send_sub_attachment attachment published_result (sr_id (snd p)))
            (attachments r))"

fun pair_loop ::
  "(string \<rightharpoonup> TestResult) \<Rightarrow> TestCaseResult \<Rightarrow> (string \<times> TestSubResult) list
     \<Rightarrow> event list \<times> error option" where
  "pair_loop results_with_attachments published_result [] = ([], None)"
| "pair_loop results_with_attachments published_result (p # rest) =
     then_run (pair_attachments results_with_attachments published_result p)
       (pair_loop results_with_attachments published_result rest)"

text \<open>
  What the loop does with a published result that was accepted: the \<^verbatim>\<open>if\<close> on the
  exact name, and the \<^verbatim>\<open>elif\<close> on the sub-results.
\<close>

definition attach_to ::
  "(string \<rightharpoonup> string list) \<Rightarrow> (string \<rightharpoonup> TestResult) \<Rightarrow> TestCaseResult
     \<Rightarrow> event list \<times> error option" where
  "attach_to test_result_order results_with_attachments published_result =
     (case results_with_attachments (automated_test_name published_result) of
        Some r \<Rightarrow>
          then_run
            ([Debug (''Result '' @ automated_test_name published_result @ '' has an attachment'')],
             None)
            (send_each (\<lambda>attachment. send_attachment attachment published_result)
               (attachments r))
      | None \<Rightarrow>
          (case sub_results published_result of
             None \<Rightarrow> ([], None)
           | Some subs \<Rightarrow>
               (case test_result_order (automated_test_name published_result) of
                  None \<Rightarrow> ([], Some (KeyError (automated_test_name published_result)))
                | Some sub_results_order \<Rightarrow>
                    then_run
                      ((if length sub_results_order \<noteq> length subs
                        then [Warning ''Returned subresults list length does not match expected. Attachments may not pair correctly.'']
                        else []),
                       None)
                      (pair_loop results_with_attachments published_result
                         (zip sub_results_order subs)))))"

text \<open>The loop over the published results.\<close>

fun publish_loop ::
  "(string \<rightharpoonup> string list) \<Rightarrow> (string \<rightharpoonup> TestResult) \<Rightarrow> TestCaseResult list
     \<Rightarrow> event list \<times> error option" where
  "publish_loop test_result_order results_with_attachments [] = ([], None)"
| "publish_loop test_result_order results_with_attachments (published_result # rest) =
     (if result_id published_result = Some (- 1)
      then publish_loop test_result_order results_with_attachments rest
      else then_run (attach_to test_result_order results_with_attachments published_result)
             (publish_loop test_result_order results_with_attachments rest))"

text \<open>
  \<^verbatim>\<open>publish_results\<close> hands the nodes to the service and runs the loop on what the
  service returns. The service is a parameter: \<open>add_test_results_to_test_run\<close> is its
  answer to a batch.
\<close>

definition publish_results ::
  "(TestCaseResult option list \<Rightarrow> TestCaseResult list) \<Rightarrow> TestCaseResult option list
     \<Rightarrow> (string \<rightharpoonup> string list) \<Rightarrow> (string \<rightharpoonup> TestResult) \<Rightarrow> event list \<times> error option" where
  "publish_results add_test_results_to_test_run test_case_results test_result_order
       results_with_attachments =
     publish_loop test_result_order results_with_attachments
       (add_test_results_to_test_run test_case_results)"

text \<open>
  \<^verbatim>\<open>upload_batch\<close>: the dictionary comprehension keeps, for each name, the last record
  with that name that has attachments. The batch is a list, so that it can be read twice,
  once for the attachments and once for the conversion.
\<close>

definition with_attachments :: "TestResult option list \<Rightarrow> (string \<rightharpoonup> TestResult)" where
  "with_attachments results =
     fold (\<lambda>ro m. case ro of
                    None \<Rightarrow> m
                  | Some r \<Rightarrow> if attachments r \<noteq> [] then m(name r \<mapsto> r) else m)
          results Map.empty"

definition upload_batch ::
  "(TestCaseResult option list \<Rightarrow> TestCaseResult list) \<Rightarrow> publisher
     \<Rightarrow> TestResult option list \<Rightarrow> event list \<times> error option" where
  "upload_batch add_test_results_to_test_run self results =
     (let results_with_attachments = with_attachments results in
      case convert_results self results of
        Inl e \<Rightarrow> ([], Some e)
      | Inr (test_case_results, test_name_order) \<Rightarrow>
          publish_results add_test_results_to_test_run test_case_results test_name_order
            results_with_attachments)"

section \<open>Describing a batch\<close>

text \<open>
  The vocabulary of the statements below. A record is recognized when its result is one
  of the three values that the conversions know; \<open>present\<close> drops the \<^verbatim>\<open>None\<close>
  entries of a batch. The standalone records are those whose name is not data-driven, the
  converted variants are the data-driven records with a recognized result, and
  \<open>variants_of rs k\<close> are the converted variants with base name \<open>k\<close>, all in the order of
  the batch.
\<close>

definition recognized :: "TestResult \<Rightarrow> bool" where
  "recognized r \<longleftrightarrow> result r = ''Pass'' \<or> result r = ''Fail'' \<or> result r = ''Skip''"

definition present :: "'a option list \<Rightarrow> 'a list" where
  "present rs = concat (map (case_option [] (\<lambda>r. [r])) rs)"

definition standalone :: "TestResult option list \<Rightarrow> TestResult list" where
  "standalone rs = filter (\<lambda>r. \<not> is_data_driven_test (name r)) (present rs)"

definition converted_variants :: "TestResult option list \<Rightarrow> TestResult list" where
  "converted_variants rs =
     filter (\<lambda>r. is_data_driven_test (name r) \<and> recognized r) (present rs)"

definition variants_of :: "TestResult option list \<Rightarrow> string \<Rightarrow> TestResult list" where
  "variants_of rs k = filter (\<lambda>r. get_ddt_base_name (name r) = k) (converted_variants rs)"

text \<open>The last record of a batch that bears the name \<open>k\<close> and carries attachments.\<close>

definition last_with_attachments :: "TestResult option list \<Rightarrow> string \<Rightarrow> TestResult" where
  "last_with_attachments rs k =
     last (filter (\<lambda>r. name r = k \<and> attachments r \<noteq> []) (present rs))"

text \<open>The elements of a list in the order of their first occurrence.\<close>

definition first_seen :: "'a list \<Rightarrow> 'a list" where
  "first_seen xs = rev (remdups (rev xs))"

text \<open>
  A group as the specification describes it, from the variants folded into it: the node
  converted from the first variant, renamed to the base name and marked as data-driven,
  with one sub-result for each variant, and failed as soon as one variant failed.
\<close>

definition group_of :: "publisher \<Rightarrow> TestResult list \<Rightarrow> TestCaseResult option" where
  "group_of self vs =
     (case vs of
        [] \<Rightarrow> None
      | r0 # _ \<Rightarrow>
          (case convert_result self r0 of
             None \<Rightarrow> None
           | Some cr \<Rightarrow>
               Some (cr\<lparr>automated_test_name := get_ddt_base_name (name r0),
                        outcome := (if \<exists>v \<in> set vs. result v = ''Fail'' then ''Failed''
                                    else outcome cr),
                        result_group_type := Some ''dataDriven'',
                        sub_results := Some (List.map_filter (convert_to_sub_test self) vs)\<rparr>)))"

text \<open>
  What the loop keeps true of its locals: the keys of \<^verbatim>\<open>data_driven_tests\<close> are
  distinct, every group has a list of sub-results, and every key has an ordering entry.
\<close>

definition well_formed :: "conversion \<Rightarrow> bool" where
  "well_formed s \<longleftrightarrow> distinct (map fst (data_driven_tests s)) \<and>
     (\<forall>(k, n) \<in> set (data_driven_tests s).
        sub_results n \<noteq> None \<and> test_name_ordering s k \<noteq> None)"

section \<open>Example data\<close>

text \<open>
  Concrete values for the instances below: a publisher, a record as the JUnit reader
  builds it, an attachment with a text and one without, and a node and a sub-result as the
  service returns them.
\<close>

definition example_publisher :: publisher where
  "example_publisher =
     \<lparr>work_item_name = ''workitem'', HELIX_CORRELATION_ID = Some ''job'',
      HELIX_WORKITEM_FRIENDLYNAME = Some ''workitem''\<rparr>"

definition example_record :: "string \<Rightarrow> string \<Rightarrow> TestResultAttachment list \<Rightarrow> TestResult" where
  "example_record n res atts =
     \<lparr>name = n, kind = ''junit'', type_name = ''T'', method_name = n, duration_seconds = 1,
      result = res, exception_type = None, failure_message = None, r_stack_trace = None,
      skip_reason = None, attachments = atts\<rparr>"

definition console_output :: TestResultAttachment where
  "console_output = \<lparr>att_name = ''Console_Output.log'', att_text = Some ''out''\<rparr>"

definition empty_output :: TestResultAttachment where
  "empty_output = \<lparr>att_name = ''Console_Output.log'', att_text = None\<rparr>"

definition example_sub :: "int \<Rightarrow> TestSubResult" where
  "example_sub i =
     \<lparr>sr_comment = [], display_name = [], sr_duration_in_ms = 1000, sr_outcome = ''Passed'',
      sr_stack_trace = None, sr_error_message = None, sr_id = Some i\<rparr>"

definition example_published :: "string \<Rightarrow> int \<Rightarrow> TestSubResult list option \<Rightarrow> TestCaseResult" where
  "example_published n i subs =
     \<lparr>test_case_title = n, automated_test_name = n, automated_test_type = ''junit'',
      automated_test_storage = ''workitem'', priority = 1, duration_in_ms = 1000,
      outcome = ''Passed'', state = ''Completed'', error_message = None, stack_trace = None,
      comment = [], result_group_type = None, sub_results = subs, result_id = Some i\<rparr>"

section \<open>Names\<close>

lemma split_once_not_Nil: "split_once c r \<noteq> []"
  by (induction r) (auto split: list.splits)

lemma split_once_first: "split_once c r ! 0 = takeWhile (\<lambda>x. x \<noteq> c) r"
  by (induction r) (auto split: list.splits simp: split_once_not_Nil)

lemma base_name_takeWhile: "get_ddt_base_name r = takeWhile (\<lambda>x. x \<noteq> CHR ''('') r"
  by (simp add: get_ddt_base_name_def split_once_first)

lemma is_ddt_last: "is_data_driven_test r \<longleftrightarrow> r \<noteq> [] \<and> last r = CHR '')''"
proof (cases r rule: rev_cases)
  case Nil
  then show ?thesis by (simp add: is_data_driven_test_def endswith_def)
next
  case (snoc ys y)
  then show ?thesis by (auto simp add: is_data_driven_test_def endswith_def)
qed

text \<open>
  C7. A name is a data-driven variant exactly when it ends with a closing parenthesis.
  Its base name is the text before the first opening parenthesis: it holds no opening
  parenthesis, the name continues with one right after it, and it is the whole name when
  the name has none.
\<close>

theorem data_driven_name_and_base:
  "(is_data_driven_test r \<longleftrightarrow> (\<exists>p. r = p @ '')'')) \<and>
   get_ddt_base_name r = takeWhile (\<lambda>c. c \<noteq> CHR ''('') r \<and>
   CHR ''('' \<notin> set (get_ddt_base_name r) \<and>
   (if CHR ''('' \<in> set r then \<exists>rest. r = get_ddt_base_name r @ CHR ''('' # rest
    else get_ddt_base_name r = r)"
proof -
  let ?P = "\<lambda>c. c \<noteq> CHR ''(''"
  have a: "is_data_driven_test r \<longleftrightarrow> (\<exists>p. r = p @ '')'')"
    by (cases r rule: rev_cases) (auto simp: is_ddt_last)
  have b: "CHR ''('' \<notin> set (takeWhile ?P r)"
    by (auto dest: set_takeWhileD)
  have c: "\<exists>rest. r = takeWhile ?P r @ CHR ''('' # rest" if h: "CHR ''('' \<in> set r"
  proof -
    have whole: "r = takeWhile ?P r @ dropWhile ?P r" by simp
    from h have "dropWhile ?P r \<noteq> []" by simp
    then obtain x xs where d: "dropWhile ?P r = x # xs"
      by (cases "dropWhile ?P r") auto
    then have "x = CHR ''(''" using hd_dropWhile[of ?P r] by auto
    with whole d show ?thesis by metis
  qed
  have d: "takeWhile ?P r = r" if "CHR ''('' \<notin> set r"
    using that by (auto simp add: takeWhile_eq_all_conv)
  show ?thesis using a b c d by (simp add: base_name_takeWhile)
qed

theorem data_driven_name_and_base_witness:
  "is_data_driven_test ''T.Add(1, 2)'' \<and> \<not> is_data_driven_test ''T.Add'' \<and>
   get_ddt_base_name ''T.Add(1, 2)'' = ''T.Add'' \<and> get_ddt_base_name ''T.Add'' = ''T.Add''"
  using data_driven_name_and_base [of "''T.Add(1, 2)''"]
    data_driven_name_and_base [of "''T.Add''"]
  by simp

section \<open>Skipped records\<close>

text \<open>
  C9. For a record with result \<^verbatim>\<open>Skip\<close>, the conversion to a node copies the skip reason
  into the error message of the node. The conversion of the same record to a sub-result
  gives outcome \<^verbatim>\<open>NotExecuted\<close>, with no error message and no stack trace, and does
  not depend on the skip reason at all.
\<close>

theorem skip_reason_only_on_node:
  assumes "result r = ''Skip''"
  shows "(\<exists>n. convert_result self r = Some n \<and> outcome n = ''NotExecuted'' \<and>
              error_message n = Some (text_of (skip_reason r))) \<and>
         (\<exists>x. convert_to_sub_test self r = Some x \<and> sr_outcome x = ''NotExecuted'' \<and>
              sr_error_message x = None \<and> sr_stack_trace x = None \<and>
              (\<forall>reason. convert_to_sub_test self (r\<lparr>skip_reason := reason\<rparr>) = Some x))"
  using assms by (simp add: convert_result_def convert_to_sub_test_def)

theorem skip_reason_only_on_node_witness:
  "\<exists>r n x. result r = ''Skip'' \<and> skip_reason r = Some ''flaky'' \<and>
     convert_result example_publisher r = Some n \<and> error_message n = Some ''flaky'' \<and>
     convert_to_sub_test example_publisher r = Some x \<and> sr_outcome x = ''NotExecuted'' \<and>
     sr_error_message x = None"
proof -
  let ?r = "\<lparr>name = ''T.Slow'', kind = ''junit'', type_name = ''T'', method_name = ''Slow'',
             duration_seconds = 0, result = ''Skip'', exception_type = None,
             failure_message = None, r_stack_trace = None, skip_reason = Some ''flaky'',
             attachments = []\<rparr>"
  have h: "result ?r = ''Skip''" by simp
  from skip_reason_only_on_node [OF h, of example_publisher] show ?thesis
    by (intro exI [of _ ?r]) auto
qed

section \<open>The loop never raises\<close>

lemma convert_result_None: "convert_result self r = None \<longleftrightarrow> \<not> recognized r"
  by (simp add: convert_result_def recognized_def)

lemma convert_to_sub_test_None: "convert_to_sub_test self r = None \<longleftrightarrow> \<not> recognized r"
  by (simp add: convert_to_sub_test_def recognized_def)

lemma same_outcome:
  "convert_result self r = Some cr \<Longrightarrow> convert_to_sub_test self r = Some csr \<Longrightarrow>
   outcome cr = sr_outcome csr"
  by (auto simp: convert_result_def convert_to_sub_test_def split: if_splits)

lemma present_snoc [simp]:
  "present (rs @ [None]) = present rs" "present (rs @ [Some r]) = present rs @ [r]" "present [] = []"
  by (simp_all add: present_def)

lemma first_seen_snoc:
  "first_seen (xs @ [x]) = (if x \<in> set xs then first_seen xs else first_seen xs @ [x])"
  by (simp add: first_seen_def)

lemma first_seen_Nil [simp]: "first_seen [] = []" by (simp add: first_seen_def)
lemma set_first_seen [simp]: "set (first_seen xs) = set xs" by (simp add: first_seen_def)
lemma distinct_first_seen [simp]: "distinct (first_seen xs)" by (simp add: first_seen_def)

lemma convert_loop_snoc:
  "convert_loop self (rs @ [r]) s0 =
     (case convert_loop self rs s0 of Inl e \<Rightarrow> Inl e | Inr s \<Rightarrow> loop_body self r s)"
  by (induction rs arbitrary: s0) (auto split: sum.splits)

lemma convert_loop_snocE:
  assumes "convert_loop self (rs @ [r]) s0 = Inr s'"
  obtains s where "convert_loop self rs s0 = Inr s" "loop_body self r s = Inr s'"
  using assms by (auto simp: convert_loop_snoc split: sum.splits)

text \<open>The five ways through the loop body.\<close>

lemma loop_body_cases [consumes 1, case_names absent standalone unrecognized seed append]:
  assumes "loop_body self ro s = Inr s'"
  obtains
    "ro = None" "s' = s"
  | r where "ro = Some r" "\<not> is_data_driven_test (name r)"
      "s' = s\<lparr>non_data_driven_tests := non_data_driven_tests s @ [convert_result self r],
              test_name_ordering := (test_name_ordering s)(name r \<mapsto> [])\<rparr>"
  | r where "ro = Some r" "is_data_driven_test (name r)" "\<not> recognized r" "s' = s"
  | r cr csr where "ro = Some r" "is_data_driven_test (name r)" "recognized r"
      "map_of (data_driven_tests s) (get_ddt_base_name (name r)) = None"
      "convert_result self r = Some cr" "convert_to_sub_test self r = Some csr"
      "s' = s\<lparr>data_driven_tests := data_driven_tests s @
                 [(get_ddt_base_name (name r),
                   cr\<lparr>automated_test_name := get_ddt_base_name (name r),
                      result_group_type := Some ''dataDriven'',
                      sub_results := Some [csr]\<rparr>)],
              test_name_ordering :=
                 (test_name_ordering s)(get_ddt_base_name (name r) \<mapsto> [name r])\<rparr>"
  | r parent sub_test subs names where "ro = Some r" "is_data_driven_test (name r)" "recognized r"
      "map_of (data_driven_tests s) (get_ddt_base_name (name r)) = Some parent"
      "convert_to_sub_test self r = Some sub_test"
      "sub_results parent = Some subs"
      "test_name_ordering s (get_ddt_base_name (name r)) = Some names"
      "s' = s\<lparr>data_driven_tests :=
                 AList.update (get_ddt_base_name (name r))
                   (parent\<lparr>sub_results := Some (subs @ [sub_test]),
                      outcome := (if sr_outcome sub_test = ''Failed'' then ''Failed'' else outcome parent)\<rparr>)
                   (data_driven_tests s),
              test_name_ordering :=
                 (test_name_ordering s)(get_ddt_base_name (name r) \<mapsto> names @ [name r])\<rparr>"
proof (cases ro)
  case None
  with assms that(1) show ?thesis by (simp add: loop_body_def)
next
  case (Some r)
  show ?thesis
  proof (cases "is_data_driven_test (name r)")
    case False
    with assms Some that(2) show ?thesis by (simp add: loop_body_def)
  next
    case ddt: True
    show ?thesis
    proof (cases "recognized r")
      case False
      then have "convert_result self r = None" "convert_to_sub_test self r = None"
        by (simp_all add: convert_result_None convert_to_sub_test_None)
      with assms Some ddt have "s' = s"
        by (simp add: loop_body_def Let_def split: option.splits)
      with Some ddt False that(3) show ?thesis by simp
    next
      case rec: True
      then obtain cr csr where c: "convert_result self r = Some cr" "convert_to_sub_test self r = Some csr"
        using convert_result_None[of self r] convert_to_sub_test_None[of self r] by auto
      show ?thesis
      proof (cases "map_of (data_driven_tests s) (get_ddt_base_name (name r))")
        case None
        with assms Some ddt c have "s' = s\<lparr>data_driven_tests := data_driven_tests s @
                 [(get_ddt_base_name (name r),
                   cr\<lparr>automated_test_name := get_ddt_base_name (name r),
                      result_group_type := Some ''dataDriven'',
                      sub_results := Some [csr]\<rparr>)],
              test_name_ordering :=
                 (test_name_ordering s)(get_ddt_base_name (name r) \<mapsto> [name r])\<rparr>"
          by (simp add: loop_body_def Let_def)
        with Some ddt rec None c that(4) show ?thesis by blast
      next
        case parent: (Some parent)
        with assms Some ddt c obtain subs names where
          x: "sub_results parent = Some subs" "test_name_ordering s (get_ddt_base_name (name r)) = Some names"
          by (auto simp add: loop_body_def Let_def split: option.splits)
        with assms Some ddt c parent have "s' = s\<lparr>data_driven_tests :=
                 AList.update (get_ddt_base_name (name r))
                   (parent\<lparr>sub_results := Some (subs @ [csr]),
                      outcome := (if sr_outcome csr = ''Failed'' then ''Failed'' else outcome parent)\<rparr>)
                   (data_driven_tests s),
              test_name_ordering :=
                 (test_name_ordering s)(get_ddt_base_name (name r) \<mapsto> names @ [name r])\<rparr>"
          by (auto simp add: loop_body_def Let_def)
        with Some ddt rec parent c x that(5) show ?thesis by blast
      qed
    qed
  qed
qed

lemma loop_body_total:
  assumes "well_formed s"
  shows "\<exists>s'. loop_body self ro s = Inr s'"
proof (cases ro)
  case None
  then show ?thesis by (simp add: loop_body_def)
next
  case (Some r)
  show ?thesis
  proof (cases "map_of (data_driven_tests s) (get_ddt_base_name (name r))")
    case None
    with Some show ?thesis by (simp add: loop_body_def Let_def split: option.splits)
  next
    case (Some parent)
    then have "(get_ddt_base_name (name r), parent) \<in> set (data_driven_tests s)"
      by (rule map_of_SomeD)
    with assms have "sub_results parent \<noteq> None" "test_name_ordering s (get_ddt_base_name (name r)) \<noteq> None"
      by (auto simp: well_formed_def)
    with Some \<open>ro = Some r\<close> show ?thesis
      by (auto simp add: loop_body_def Let_def split: option.splits)
  qed
qed

lemma in_set_updateD:
  "(a, b) \<in> set (AList.update k v al) \<Longrightarrow> (a = k \<and> b = v) \<or> (a, b) \<in> set al"
  by (induction al) (auto split: if_splits)

lemma loop_body_well_formed:
  assumes "well_formed s" "loop_body self ro s = Inr s'"
  shows "well_formed s'"
  using assms(2)
proof (cases rule: loop_body_cases)
  case absent
  with assms show ?thesis by simp
next
  case (standalone r)
  with assms(1) show ?thesis by (auto simp: well_formed_def)
next
  case (unrecognized r)
  with assms show ?thesis by simp
next
  case (seed r cr csr)
  from seed(4) have "get_ddt_base_name (name r) \<notin> fst ` set (data_driven_tests s)"
    by (simp add: map_of_eq_None_iff)
  with assms(1) seed(7) show ?thesis by (auto simp: well_formed_def)
next
  case (append r parent sub_test subs names)
  define n' where "n' = parent\<lparr>sub_results := Some (subs @ [sub_test]),
      outcome := (if sr_outcome sub_test = ''Failed'' then ''Failed'' else outcome parent)\<rparr>"
  have s': "s' = s\<lparr>data_driven_tests :=
                 AList.update (get_ddt_base_name (name r)) n' (data_driven_tests s),
              test_name_ordering :=
                 (test_name_ordering s)(get_ddt_base_name (name r) \<mapsto> names @ [name r])\<rparr>"
    unfolding n'_def by (rule append(8))
  have "sub_results n' \<noteq> None" by (simp add: n'_def)
  with assms(1) show ?thesis unfolding s'
    by (auto simp: well_formed_def distinct_update dest!: in_set_updateD)
qed

lemma convert_loop_total:
  "well_formed s \<Longrightarrow> \<exists>s'. convert_loop self rs s = Inr s' \<and> well_formed s'"
proof (induction rs arbitrary: s)
  case Nil
  then show ?case by simp
next
  case (Cons r rs)
  from loop_body_total [OF Cons.prems] obtain s1 where s1: "loop_body self r s = Inr s1" by blast
  with Cons.prems have "well_formed s1" by (rule loop_body_well_formed)
  from Cons.IH [OF this] s1 show ?case by simp
qed

lemma well_formed_start: "well_formed start" by (simp add: well_formed_def start_def)

section \<open>What the loop computes\<close>

lemma converted_variants_snoc [simp]:
  "converted_variants [] = []"
  "converted_variants (rs @ [None]) = converted_variants rs"
  "converted_variants (rs @ [Some r]) =
     (if is_data_driven_test (name r) \<and> recognized r then converted_variants rs @ [r]
      else converted_variants rs)"
  by (simp_all add: converted_variants_def)

lemma standalone_snoc [simp]:
  "standalone [] = []"
  "standalone (rs @ [None]) = standalone rs"
  "standalone (rs @ [Some r]) =
     (if is_data_driven_test (name r) then standalone rs else standalone rs @ [r])"
  by (simp_all add: standalone_def)

lemma loop_standalone:
  "convert_loop self rs start = Inr s \<Longrightarrow>
   non_data_driven_tests s = map (convert_result self) (standalone rs)"
proof (induction rs arbitrary: s rule: rev_induct)
  case Nil
  then show ?case by (auto simp add: start_def)
next
  case (snoc ro rs)
  from snoc.prems obtain s0 where s0: "convert_loop self rs start = Inr s0"
    and step: "loop_body self ro s0 = Inr s" by (rule convert_loop_snocE)
  note IH = snoc.IH [OF s0]
  from step show ?case by (cases rule: loop_body_cases) (simp_all add: IH)
qed

lemma loop_keys:
  "convert_loop self rs start = Inr s \<Longrightarrow>
   map fst (data_driven_tests s) =
     first_seen (map (\<lambda>r. get_ddt_base_name (name r)) (converted_variants rs))"
proof (induction rs arbitrary: s rule: rev_induct)
  case Nil
  then show ?case by (auto simp add: start_def)
next
  case (snoc ro rs)
  from snoc.prems obtain s0 where s0: "convert_loop self rs start = Inr s0"
    and step: "loop_body self ro s0 = Inr s" by (rule convert_loop_snocE)
  note IH = snoc.IH [OF s0]
  from step show ?case
  proof (cases rule: loop_body_cases)
    case (seed r cr csr)
    from seed(4) have "get_ddt_base_name (name r) \<notin> set (map fst (data_driven_tests s0))"
      by (simp add: map_of_eq_None_iff)
    with seed IH show ?thesis by (simp add: first_seen_snoc)
  next
    case (append r parent sub_test subs names)
    from append(4) have "get_ddt_base_name (name r) \<in> set (map fst (data_driven_tests s0))"
      by (force dest: map_of_SomeD)
    with append IH show ?thesis by (simp add: first_seen_snoc update_keys)
  qed (simp_all add: IH)
qed

lemma sub_outcome_Failed:
  "convert_to_sub_test self r = Some x \<Longrightarrow> sr_outcome x = ''Failed'' \<longleftrightarrow> result r = ''Fail''"
  by (auto simp: convert_to_sub_test_def split: if_splits)

lemma node_outcome_Failed:
  "convert_result self r = Some x \<Longrightarrow> outcome x = ''Failed'' \<longleftrightarrow> result r = ''Fail''"
  by (auto simp: convert_result_def split: if_splits)

lemma variants_of_snoc [simp]:
  "variants_of [] k = []"
  "variants_of (rs @ [None]) k = variants_of rs k"
  "variants_of (rs @ [Some r]) k =
     (if is_data_driven_test (name r) \<and> recognized r \<and> get_ddt_base_name (name r) = k
      then variants_of rs k @ [r] else variants_of rs k)"
  by (simp_all add: variants_of_def)

lemma group_of_None: "(\<forall>v \<in> set vs. recognized v) \<Longrightarrow> group_of self vs = None \<longleftrightarrow> vs = []"
  by (cases vs) (auto simp: group_of_def convert_result_None split: option.splits)

lemma variants_of_recognized: "v \<in> set (variants_of rs k) \<Longrightarrow> recognized v"
  by (simp add: variants_of_def converted_variants_def)

lemma variants_of_base: "v \<in> set (variants_of rs k) \<Longrightarrow> get_ddt_base_name (name v) = k"
  by (simp add: variants_of_def converted_variants_def)

lemma map_filter_snoc:
  "List.map_filter f (xs @ [x]) =
     (case f x of None \<Rightarrow> List.map_filter f xs | Some y \<Rightarrow> List.map_filter f xs @ [y])"
  by (simp add: List.map_filter_def split: option.splits)

lemma group_of_Cons:
  "convert_result self r0 = Some cr \<Longrightarrow>
   group_of self (r0 # vs) =
     Some (cr\<lparr>automated_test_name := get_ddt_base_name (name r0),
              outcome := (if \<exists>v \<in> set (r0 # vs). result v = ''Fail'' then ''Failed'' else outcome cr),
              result_group_type := Some ''dataDriven'',
              sub_results := Some (List.map_filter (convert_to_sub_test self) (r0 # vs))\<rparr>)"
  by (simp add: group_of_def)

lemma group_of_SomeE:
  assumes "group_of self vs = Some parent"
  obtains r0 vs' cr where "vs = r0 # vs'" "convert_result self r0 = Some cr"
  using assms by (cases vs) (auto simp: group_of_def split: option.splits)

lemma group_of_snoc:
  assumes "group_of self vs = Some parent" "sub_results parent = Some subs"
    "convert_to_sub_test self r = Some sub_test"
  shows "group_of self (vs @ [r]) =
     Some (parent\<lparr>sub_results := Some (subs @ [sub_test]),
             outcome := (if sr_outcome sub_test = ''Failed'' then ''Failed'' else outcome parent)\<rparr>)"
proof -
  from assms(1) obtain r0 vs' cr where vs: "vs = r0 # vs'" and cr: "convert_result self r0 = Some cr"
    by (rule group_of_SomeE)
  define b where "b = get_ddt_base_name (name r0)"
  define o1 where "o1 = (if \<exists>v \<in> set vs. result v = ''Fail'' then ''Failed'' else outcome cr)"
  define o2 where "o2 = (if \<exists>v \<in> set (vs @ [r]). result v = ''Fail'' then ''Failed'' else outcome cr)"
  define s1 where "s1 = List.map_filter (convert_to_sub_test self) vs"
  define s2 where "s2 = List.map_filter (convert_to_sub_test self) (vs @ [r])"
  have p: "parent = cr\<lparr>automated_test_name := b, outcome := o1,
                        result_group_type := Some ''dataDriven'', sub_results := Some s1\<rparr>"
    using assms(1) group_of_Cons [OF cr, of vs'] unfolding vs b_def o1_def s1_def by simp
  have g: "group_of self (vs @ [r]) = Some (cr\<lparr>automated_test_name := b, outcome := o2,
                        result_group_type := Some ''dataDriven'', sub_results := Some s2\<rparr>)"
    using group_of_Cons [OF cr, of "vs' @ [r]"] unfolding vs b_def o2_def s2_def by simp
  have subs: "subs = s1" using assms(2) unfolding p by simp
  have s2: "s2 = subs @ [sub_test]"
    unfolding s2_def subs s1_def by (simp add: map_filter_snoc assms(3))
  have f: "sr_outcome sub_test = ''Failed'' \<longleftrightarrow> result r = ''Fail''"
    using assms(3) by (rule sub_outcome_Failed)
  have op: "outcome parent = o1" unfolding p by simp
  have o2: "o2 = (if sr_outcome sub_test = ''Failed'' then ''Failed'' else outcome parent)"
    unfolding op o2_def o1_def f by auto
  show ?thesis unfolding g o2 [symmetric] s2 [symmetric] unfolding p by simp
qed

lemma map_of_snoc:
  "map_of (al @ [(k, v)]) k' =
     (case map_of al k' of Some x \<Rightarrow> Some x | None \<Rightarrow> if k' = k then Some v else None)"
  by (induction al) auto

lemma group_of_single:
  assumes "convert_result self r = Some cr" "convert_to_sub_test self r = Some csr"
  shows "group_of self [r] =
     Some (cr\<lparr>automated_test_name := get_ddt_base_name (name r),
              result_group_type := Some ''dataDriven'',
              sub_results := Some [csr]\<rparr>)"
proof -
  have "(if result r = ''Fail'' then ''Failed'' else outcome cr) = outcome cr"
    using node_outcome_Failed [OF assms(1)] by auto
  then show ?thesis using assms
    by (simp add: group_of_def List.map_filter_def)
qed

lemma loop_groups:
  "convert_loop self rs start = Inr s \<Longrightarrow>
   map_of (data_driven_tests s) k = group_of self (variants_of rs k)"
proof (induction rs arbitrary: s rule: rev_induct)
  case Nil
  then show ?case by (auto simp add: start_def group_of_def)
next
  case (snoc ro rs)
  from snoc.prems obtain s0 where s0: "convert_loop self rs start = Inr s0"
    and step: "loop_body self ro s0 = Inr s" by (rule convert_loop_snocE)
  note IH = snoc.IH [OF s0]
  from step show ?case
  proof (cases rule: loop_body_cases)
    case (seed r cr csr)
    let ?b = "get_ddt_base_name (name r)"
    show ?thesis
    proof (cases "k = ?b")
      case True
      from seed(4) have "group_of self (variants_of rs ?b) = None"
        using snoc.IH [OF s0] True by simp
      then have "variants_of rs ?b = []"
        using group_of_None [of "variants_of rs ?b" self] variants_of_recognized by blast
      with seed True group_of_single [OF seed(5,6)] show ?thesis
        by (simp add: map_add_def)
    next
      case False
      with seed IH show ?thesis by (auto simp add: map_add_def split: option.splits)
    qed
  next
    case (append r parent sub_test subs names)
    let ?b = "get_ddt_base_name (name r)"
    show ?thesis
    proof (cases "k = ?b")
      case True
      from append(4) IH True have g: "group_of self (variants_of rs ?b) = Some parent" by simp
      from group_of_snoc [OF g append(6) append(5)] append True show ?thesis
        by (simp add: update_conv')
    next
      case False
      with append IH show ?thesis by (simp add: update_conv')
    qed
  qed (simp_all add: IH)
qed

lemma variants_of_append: "variants_of (xs @ ys) k = variants_of xs k @ variants_of ys k"
  by (simp add: variants_of_def converted_variants_def present_def)

lemma standalone_append: "standalone (xs @ ys) = standalone xs @ standalone ys"
  by (simp add: standalone_def present_def)

lemma loop_ordering:
  "convert_loop self rs start = Inr s \<Longrightarrow> \<forall>r \<in> set (standalone rs). name r \<noteq> k \<Longrightarrow>
   test_name_ordering s k =
     (if variants_of rs k = [] then None else Some (map name (variants_of rs k)))"
proof (induction rs arbitrary: s rule: rev_induct)
  case Nil
  then show ?case by (auto simp add: start_def)
next
  case (snoc ro rs)
  from snoc.prems(1) obtain s0 where s0: "convert_loop self rs start = Inr s0"
    and step: "loop_body self ro s0 = Inr s" by (rule convert_loop_snocE)
  from snoc.prems(2) have "\<forall>r \<in> set (standalone rs). name r \<noteq> k"
    by (simp add: standalone_append)
  note IH = snoc.IH [OF s0 this]
  from step show ?case
  proof (cases rule: loop_body_cases)
    case (standalone r)
    with snoc.prems(2) have "name r \<noteq> k" by simp
    with standalone IH show ?thesis by simp
  next
    case (seed r cr csr)
    let ?b = "get_ddt_base_name (name r)"
    from seed(4) have "group_of self (variants_of rs ?b) = None"
      using loop_groups [OF s0] by simp
    then have "variants_of rs ?b = []"
      using group_of_None [of "variants_of rs ?b" self] variants_of_recognized by blast
    with seed IH show ?thesis by auto
  next
    case (append r parent sub_test subs names)
    with IH show ?thesis by (auto split: if_splits)
  qed (simp_all add: IH)
qed

lemma sub_failed_iff:
  "\<forall>v \<in> set vs. recognized v \<Longrightarrow>
   (\<exists>x \<in> set (List.map_filter (convert_to_sub_test self) vs). sr_outcome x = ''Failed'') \<longleftrightarrow>
   (\<exists>v \<in> set vs. result v = ''Fail'')"
proof (induction vs rule: rev_induct)
  case Nil
  then show ?case by (simp add: List.map_filter_def)
next
  case (snoc v vs)
  then obtain x where x: "convert_to_sub_test self v = Some x"
    using convert_to_sub_test_None [of self v] by auto
  from snoc have IH: "(\<exists>x \<in> set (List.map_filter (convert_to_sub_test self) vs). sr_outcome x = ''Failed'') \<longleftrightarrow>
   (\<exists>v \<in> set vs. result v = ''Fail'')" by simp
  show ?case using IH sub_outcome_Failed [OF x] by (auto simp add: map_filter_snoc x)
qed

lemma group_of_facts:
  assumes "group_of self vs = Some n" "\<forall>v \<in> set vs. recognized v"
  obtains r0 vs' cr csr where "vs = r0 # vs'" "convert_result self r0 = Some cr"
    "convert_to_sub_test self r0 = Some csr"
    "automated_test_name n = get_ddt_base_name (name r0)"
    "result_group_type n = Some ''dataDriven''"
    "sub_results n = Some (csr # List.map_filter (convert_to_sub_test self) vs')"
    "outcome n = ''Failed'' \<longleftrightarrow> (\<exists>v \<in> set vs. result v = ''Fail'')"
    "\<not> (\<exists>v \<in> set vs. result v = ''Fail'') \<longrightarrow> outcome n = outcome cr"
proof -
  from assms(1) obtain r0 vs' cr where vs: "vs = r0 # vs'" and cr: "convert_result self r0 = Some cr"
    by (rule group_of_SomeE)
  from assms(2) vs obtain csr where csr: "convert_to_sub_test self r0 = Some csr"
    using convert_to_sub_test_None [of self r0] by auto
  define o1 where "o1 = (if \<exists>v \<in> set (r0 # vs'). result v = ''Fail'' then ''Failed'' else outcome cr)"
  define s1 where "s1 = List.map_filter (convert_to_sub_test self) (r0 # vs')"
  have n: "n = cr\<lparr>automated_test_name := get_ddt_base_name (name r0), outcome := o1,
              result_group_type := Some ''dataDriven'', sub_results := Some s1\<rparr>"
    using assms(1) group_of_Cons [OF cr, of vs'] unfolding vs o1_def s1_def by simp
  have s1: "s1 = csr # List.map_filter (convert_to_sub_test self) vs'"
    unfolding s1_def by (simp add: List.map_filter_def csr)
  have o: "outcome n = o1" unfolding n by simp
  have f: "outcome cr = ''Failed'' \<longleftrightarrow> result r0 = ''Fail''"
    using cr by (rule node_outcome_Failed)
  have 1: "outcome n = ''Failed'' \<longleftrightarrow> (\<exists>v \<in> set vs. result v = ''Fail'')"
    unfolding o o1_def vs using f by auto
  have 2: "\<not> (\<exists>v \<in> set vs. result v = ''Fail'') \<longrightarrow> outcome n = outcome cr"
    unfolding o o1_def vs by auto
  show ?thesis
    by (rule that [OF vs cr csr _ _ _ 1 2]) (simp_all add: n s1)
qed

lemma convert_results_Inr:
  assumes "convert_results self rs = Inr (nodes, name_order)"
  obtains s where "convert_loop self rs start = Inr s" "well_formed s"
    "nodes = map (Some \<circ> snd) (data_driven_tests s) @ non_data_driven_tests s"
    "name_order = test_name_ordering s"
proof -
  from convert_loop_total [OF well_formed_start, of self rs] obtain s
    where s: "convert_loop self rs start = Inr s" "well_formed s" by blast
  with assms that show ?thesis by (simp add: convert_results_def)
qed

lemma convert_results_total: "\<exists>nodes name_order. convert_results self rs = Inr (nodes, name_order)"
  using convert_loop_total [OF well_formed_start, of self rs]
  by (auto simp: convert_results_def)

lemma standalone_node_plain:
  "convert_result self r = Some n \<Longrightarrow> sub_results n = None \<and> result_group_type n = None \<and> automated_test_name n = name r"
  by (auto simp: convert_result_def split: if_splits)

text \<open>A node of the output with sub-results is the group of its name.\<close>

lemma grouped_node:
  assumes "convert_results self rs = Inr (nodes, name_order)" "Some n \<in> set nodes"
    "sub_results n \<noteq> None"
  shows "\<exists>k. group_of self (variants_of rs k) = Some n"
proof -
  from assms(1) obtain s where s: "convert_loop self rs start = Inr s" "well_formed s"
    "nodes = map (Some \<circ> snd) (data_driven_tests s) @ non_data_driven_tests s"
    by (rule convert_results_Inr)
  have "Some n \<notin> set (non_data_driven_tests s)"
  proof
    assume "Some n \<in> set (non_data_driven_tests s)"
    then obtain r where "convert_result self r = Some n"
      unfolding loop_standalone [OF s(1)] by auto
    with assms(3) show False by (simp add: standalone_node_plain)
  qed
  with assms(2) s(3) obtain k where "(k, n) \<in> set (data_driven_tests s)" by auto
  moreover from s(2) have "distinct (map fst (data_driven_tests s))" by (simp add: well_formed_def)
  ultimately have "map_of (data_driven_tests s) k = Some n" by simp
  then show ?thesis using loop_groups [OF s(1), of k] by auto
qed

lemma outcome_table:
  "convert_result self r = Some cr \<Longrightarrow> result r \<noteq> ''Fail'' \<Longrightarrow>
   (result r = ''Pass'' \<and> outcome cr = ''Passed'') \<or> (result r = ''Skip'' \<and> outcome cr = ''NotExecuted'')"
  by (auto simp: convert_result_def split: if_splits)

section \<open>Outcome of a group\<close>

text \<open>
  C1. Take any batch and any node of the output of \<^verbatim>\<open>convert_results\<close> that has a
  non-empty list of sub-results. Its outcome is \<^verbatim>\<open>Failed\<close> exactly when one of its
  sub-results has outcome \<^verbatim>\<open>Failed\<close>. When none has, its outcome is that of its first
  sub-result, which is the conversion of the first variant folded into the group:
  \<^verbatim>\<open>Passed\<close> for \<^verbatim>\<open>Pass\<close> and \<^verbatim>\<open>NotExecuted\<close> for \<^verbatim>\<open>Skip\<close>. And a group that
  was \<^verbatim>\<open>Failed\<close> after some prefix of the batch is \<^verbatim>\<open>Failed\<close> at the end.
\<close>

theorem grouped_outcome_follows_sub_results:
  assumes "convert_results self rs = Inr (nodes, name_order)"
    and "Some n \<in> set nodes" and "sub_results n = Some subs" and "subs \<noteq> []"
  shows "(outcome n = ''Failed'' \<longleftrightarrow> (\<exists>x \<in> set subs. sr_outcome x = ''Failed'')) \<and>
         ((\<forall>x \<in> set subs. sr_outcome x \<noteq> ''Failed'') \<longrightarrow>
            outcome n = sr_outcome (hd subs) \<and>
            (\<exists>r0 vs. variants_of rs (automated_test_name n) = r0 # vs \<and>
               convert_to_sub_test self r0 = Some (hd subs) \<and>
               (result r0 = ''Pass'' \<and> outcome n = ''Passed'' \<or>
                result r0 = ''Skip'' \<and> outcome n = ''NotExecuted''))) \<and>
         (\<forall>pre post s m. rs = pre @ post \<and> convert_loop self pre start = Inr s \<and>
              map_of (data_driven_tests s) (automated_test_name n) = Some m \<and>
              outcome m = ''Failed'' \<longrightarrow> outcome n = ''Failed'')"
proof -
  from grouped_node [OF assms(1,2)] assms(3) obtain k
    where g: "group_of self (variants_of rs k) = Some n" by auto
  have rec: "\<forall>v \<in> set (variants_of rs k). recognized v"
    using variants_of_recognized by blast
  from g rec obtain r0 vs' cr csr where
    vs: "variants_of rs k = r0 # vs'" and cr: "convert_result self r0 = Some cr"
    and csr: "convert_to_sub_test self r0 = Some csr"
    and nm: "automated_test_name n = get_ddt_base_name (name r0)"
    and rgt: "result_group_type n = Some ''dataDriven''"
    and subs': "sub_results n = Some (csr # List.map_filter (convert_to_sub_test self) vs')"
    and failed: "outcome n = ''Failed'' \<longleftrightarrow> (\<exists>v \<in> set (variants_of rs k). result v = ''Fail'')"
    and other: "\<not> (\<exists>v \<in> set (variants_of rs k). result v = ''Fail'') \<longrightarrow> outcome n = outcome cr"
    by (rule group_of_facts)
  have k: "automated_test_name n = k"
    using nm variants_of_base [of r0 rs k] vs by simp
  have subs: "subs = List.map_filter (convert_to_sub_test self) (variants_of rs k)"
    using subs' assms(3) vs csr by (simp add: List.map_filter_def)
  have hd: "hd subs = csr" using subs' assms(3) by simp
  have iff: "(\<exists>x \<in> set subs. sr_outcome x = ''Failed'') \<longleftrightarrow> (\<exists>v \<in> set (variants_of rs k). result v = ''Fail'')"
    unfolding subs using rec by (rule sub_failed_iff)
  have 1: "outcome n = ''Failed'' \<longleftrightarrow> (\<exists>x \<in> set subs. sr_outcome x = ''Failed'')"
    using failed iff by simp
  have 2: "outcome n = sr_outcome (hd subs) \<and>
            (\<exists>r0 vs. variants_of rs (automated_test_name n) = r0 # vs \<and>
               convert_to_sub_test self r0 = Some (hd subs) \<and>
               (result r0 = ''Pass'' \<and> outcome n = ''Passed'' \<or>
                result r0 = ''Skip'' \<and> outcome n = ''NotExecuted''))"
    if none: "\<forall>x \<in> set subs. sr_outcome x \<noteq> ''Failed''"
  proof -
    from none iff have nf: "\<not> (\<exists>v \<in> set (variants_of rs k). result v = ''Fail'')" by blast
    with other have o: "outcome n = outcome cr" by simp
    from nf vs have r0: "result r0 \<noteq> ''Fail''" by simp
    have "outcome cr = sr_outcome csr" using cr csr by (rule same_outcome)
    with o hd have a: "outcome n = sr_outcome (hd subs)" by simp
    from outcome_table [OF cr r0] o
    have "result r0 = ''Pass'' \<and> outcome n = ''Passed'' \<or>
          result r0 = ''Skip'' \<and> outcome n = ''NotExecuted''" by simp
    with a vs csr hd k show ?thesis by auto
  qed
  have 3: "outcome n = ''Failed''"
    if h: "rs = pre @ post" "convert_loop self pre start = Inr s"
       "map_of (data_driven_tests s) (automated_test_name n) = Some m" "outcome m = ''Failed''"
    for pre post s m
  proof -
    from h(2,3) k have gm: "group_of self (variants_of pre k) = Some m"
      using loop_groups [of self pre s k] by simp
    have "\<forall>v \<in> set (variants_of pre k). recognized v" using variants_of_recognized by blast
    with gm have "outcome m = ''Failed'' \<longleftrightarrow> (\<exists>v \<in> set (variants_of pre k). result v = ''Fail'')"
      by (rule group_of_facts) assumption
    with h(4) have "\<exists>v \<in> set (variants_of pre k). result v = ''Fail''" by simp
    then have "\<exists>v \<in> set (variants_of rs k). result v = ''Fail''"
      unfolding h(1) variants_of_append by auto
    with failed show ?thesis by simp
  qed
  from 1 2 3 show ?thesis by blast
qed

section \<open>The ordering index\<close>

lemma sub_display_name:
  "convert_to_sub_test self r = Some x \<Longrightarrow> display_name x = name r"
  by (auto simp: convert_to_sub_test_def split: if_splits)

lemma sub_names:
  "\<forall>v \<in> set vs. recognized v \<Longrightarrow>
   map display_name (List.map_filter (convert_to_sub_test self) vs) = map name vs"
proof (induction vs rule: rev_induct)
  case Nil
  then show ?case by (simp add: List.map_filter_def)
next
  case (snoc v vs)
  then obtain x where x: "convert_to_sub_test self v = Some x"
    using convert_to_sub_test_None [of self v] by auto
  with snoc show ?case by (simp add: map_filter_snoc sub_display_name)
qed

text \<open>
  C2, as it holds. Let \<open>k\<close> be a name that no standalone record of the batch bears. Then
  the ordering entry of \<open>k\<close> lists the names of the data-driven records with base name
  \<open>k\<close> and a recognized result, unmodified and in the order of the batch; there is no entry
  when there is no such record. The names are those of the sub-results of the group, in
  the same order.
\<close>

theorem ordering_entry_lists_converted_variants:
  assumes "convert_results self rs = Inr (nodes, name_order)"
    and "\<forall>r \<in> set (standalone rs). name r \<noteq> k"
  shows "name_order k =
           (if variants_of rs k = [] then None else Some (map name (variants_of rs k))) \<and>
         (variants_of rs k \<noteq> [] \<longrightarrow>
            (\<exists>n subs. Some n \<in> set nodes \<and> automated_test_name n = k \<and>
               sub_results n = Some subs \<and> map display_name subs = map name (variants_of rs k)))"
proof -
  from assms(1) obtain s where s: "convert_loop self rs start = Inr s" "well_formed s"
    "nodes = map (Some \<circ> snd) (data_driven_tests s) @ non_data_driven_tests s"
    "name_order = test_name_ordering s"
    by (rule convert_results_Inr)
  have 1: "name_order k =
           (if variants_of rs k = [] then None else Some (map name (variants_of rs k)))"
    unfolding s(4) using s(1) assms(2) by (rule loop_ordering)
  have 2: "\<exists>n subs. Some n \<in> set nodes \<and> automated_test_name n = k \<and>
               sub_results n = Some subs \<and> map display_name subs = map name (variants_of rs k)"
    if ne: "variants_of rs k \<noteq> []"
  proof -
    have rec: "\<forall>v \<in> set (variants_of rs k). recognized v"
      using variants_of_recognized by blast
    with ne have "group_of self (variants_of rs k) \<noteq> None"
      by (simp add: group_of_None)
    then obtain n where n: "map_of (data_driven_tests s) k = Some n"
      using loop_groups [OF s(1), of k] by auto
    then have g: "group_of self (variants_of rs k) = Some n"
      using loop_groups [OF s(1), of k] by simp
    from n have "(k, n) \<in> set (data_driven_tests s)" by (rule map_of_SomeD)
    then have mem: "Some n \<in> set nodes" unfolding s(3) by force
    from g rec obtain r0 vs' cr csr where
      vs: "variants_of rs k = r0 # vs'" and cr: "convert_result self r0 = Some cr"
      and csr: "convert_to_sub_test self r0 = Some csr"
      and nm: "automated_test_name n = get_ddt_base_name (name r0)"
      and rgt: "result_group_type n = Some ''dataDriven''"
      and subs': "sub_results n = Some (csr # List.map_filter (convert_to_sub_test self) vs')"
      and failed: "outcome n = ''Failed'' \<longleftrightarrow> (\<exists>v \<in> set (variants_of rs k). result v = ''Fail'')"
      and other: "\<not> (\<exists>v \<in> set (variants_of rs k). result v = ''Fail'') \<longrightarrow> outcome n = outcome cr"
      by (rule group_of_facts)
    have k: "automated_test_name n = k"
      using nm variants_of_base [of r0 rs k] vs by simp
    have subs: "sub_results n = Some (List.map_filter (convert_to_sub_test self) (variants_of rs k))"
      using subs' vs csr by (simp add: List.map_filter_def)
    have "map display_name (List.map_filter (convert_to_sub_test self) (variants_of rs k)) =
          map name (variants_of rs k)"
      using rec by (rule sub_names)
    with mem k subs show ?thesis by blast
  qed
  from 1 2 show ?thesis by blast
qed

section \<open>Order of the nodes\<close>

lemma group_key:
  assumes "convert_loop self rs start = Inr s" "(k, n) \<in> set (data_driven_tests s)"
  shows "automated_test_name n = k \<and> result_group_type n = Some ''dataDriven'' \<and> sub_results n \<noteq> None"
proof -
  from convert_loop_total [OF well_formed_start, of self rs] assms(1)
  have "well_formed s" by auto
  then have "distinct (map fst (data_driven_tests s))" by (simp add: well_formed_def)
  with assms(2) have "map_of (data_driven_tests s) k = Some n" by simp
  then have g: "group_of self (variants_of rs k) = Some n"
    using loop_groups [OF assms(1), of k] by simp
  have rec: "\<forall>v \<in> set (variants_of rs k). recognized v"
    using variants_of_recognized by blast
  from g rec obtain r0 vs' cr csr where
    vs: "variants_of rs k = r0 # vs'" and cr: "convert_result self r0 = Some cr"
    and csr: "convert_to_sub_test self r0 = Some csr"
    and nm: "automated_test_name n = get_ddt_base_name (name r0)"
    and rgt: "result_group_type n = Some ''dataDriven''"
    and subs': "sub_results n = Some (csr # List.map_filter (convert_to_sub_test self) vs')"
    and failed: "outcome n = ''Failed'' \<longleftrightarrow> (\<exists>v \<in> set (variants_of rs k). result v = ''Fail'')"
    and other: "\<not> (\<exists>v \<in> set (variants_of rs k). result v = ''Fail'') \<longrightarrow> outcome n = outcome cr"
    by (rule group_of_facts)
  have "automated_test_name n = k"
    using nm variants_of_base [of r0 rs k] vs by simp
  with rgt subs' show ?thesis by simp
qed

lemma map_filter_id_map: "List.map_filter id (map f xs) = List.map_filter f xs"
  by (induction xs) (auto simp: List.map_filter_def)

text \<open>
  C3, as it holds. The output of \<^verbatim>\<open>convert_results\<close> starts with the grouped nodes,
  one for each base name, in the order in which the base names first occur among the
  data-driven records with a recognized result. What follows holds no grouped node, and
  its nodes are the conversions of the standalone records in the order of the batch.
\<close>

theorem groups_first_then_standalone:
  "\<exists>groups rest name_order.
     convert_results self rs = Inr (map Some groups @ rest, name_order) \<and>
     map automated_test_name groups =
       first_seen (map (\<lambda>r. get_ddt_base_name (name r)) (converted_variants rs)) \<and>
     (\<forall>g \<in> set groups. result_group_type g = Some ''dataDriven'' \<and> sub_results g \<noteq> None) \<and>
     List.map_filter id rest = List.map_filter (convert_result self) (standalone rs) \<and>
     (\<forall>n. Some n \<in> set rest \<longrightarrow> result_group_type n = None \<and> sub_results n = None)"
proof -
  from convert_loop_total [OF well_formed_start, of self rs] obtain s
    where s: "convert_loop self rs start = Inr s" by blast
  let ?groups = "map snd (data_driven_tests s)"
  let ?rest = "non_data_driven_tests s"
  have out: "convert_results self rs = Inr (map Some ?groups @ ?rest, test_name_ordering s)"
    using s by (simp add: convert_results_def)
  have key: "\<forall>(k, n) \<in> set (data_driven_tests s). automated_test_name n = k \<and>
      result_group_type n = Some ''dataDriven'' \<and> sub_results n \<noteq> None"
    using group_key [OF s] by blast
  then have "map automated_test_name ?groups = map fst (data_driven_tests s)"
    by (induction "data_driven_tests s") auto
  then have names: "map automated_test_name ?groups =
       first_seen (map (\<lambda>r. get_ddt_base_name (name r)) (converted_variants rs))"
    using loop_keys [OF s] by simp
  from key have grp: "\<forall>g \<in> set ?groups. result_group_type g = Some ''dataDriven'' \<and> sub_results g \<noteq> None"
    by auto
  have rest: "?rest = map (convert_result self) (standalone rs)"
    using s by (rule loop_standalone)
  have tail: "List.map_filter id ?rest = List.map_filter (convert_result self) (standalone rs)"
    unfolding rest by (rule map_filter_id_map)
  have plain: "\<forall>n. Some n \<in> set ?rest \<longrightarrow> result_group_type n = None \<and> sub_results n = None"
    unfolding rest using standalone_node_plain by auto
  from out names grp tail plain show ?thesis by blast
qed

section \<open>The first variant of a group\<close>

text \<open>
  C8. When the loop meets a data-driven record with a recognized result whose base name
  is not yet a key of \<^verbatim>\<open>data_driven_tests\<close>, the record is converted twice. The node,
  renamed to the base name, marked \<^verbatim>\<open>dataDriven\<close> and holding the sub-result as its
  only sub-result, is added after the groups already there, and the ordering entry of the
  base name becomes the list holding the name of the record as it was.
\<close>

theorem first_variant_seeds_group:
  assumes "convert_loop self pre start = Inr s"
    and "is_data_driven_test (name r)"
    and "result r = ''Pass'' \<or> result r = ''Fail'' \<or> result r = ''Skip''"
    and "get_ddt_base_name (name r) \<notin> fst ` set (data_driven_tests s)"
  shows "\<exists>cr csr s'. convert_result self r = Some cr \<and> convert_to_sub_test self r = Some csr \<and>
           convert_loop self (pre @ [Some r]) start = Inr s' \<and>
           data_driven_tests s' = data_driven_tests s @
             [(get_ddt_base_name (name r),
               cr\<lparr>automated_test_name := get_ddt_base_name (name r),
                  result_group_type := Some ''dataDriven'',
                  sub_results := Some [csr]\<rparr>)] \<and>
           test_name_ordering s' = (test_name_ordering s)(get_ddt_base_name (name r) \<mapsto> [name r]) \<and>
           non_data_driven_tests s' = non_data_driven_tests s"
proof -
  from assms(3) have rec: "recognized r" by (simp add: recognized_def)
  then obtain cr csr where c: "convert_result self r = Some cr" "convert_to_sub_test self r = Some csr"
    using convert_result_None [of self r] convert_to_sub_test_None [of self r] by auto
  from assms(4) have none: "map_of (data_driven_tests s) (get_ddt_base_name (name r)) = None"
    by (simp add: map_of_eq_None_iff)
  have "loop_body self (Some r) s = Inr (s\<lparr>data_driven_tests := data_driven_tests s @
             [(get_ddt_base_name (name r),
               cr\<lparr>automated_test_name := get_ddt_base_name (name r),
                  result_group_type := Some ''dataDriven'',
                  sub_results := Some [csr]\<rparr>)],
           test_name_ordering := (test_name_ordering s)(get_ddt_base_name (name r) \<mapsto> [name r])\<rparr>)"
    using assms(2) c none by (simp add: loop_body_def Let_def)
  then show ?thesis using assms(1) c by (simp add: convert_loop_snoc)
qed

section \<open>The attachment pass\<close>

lemma then_run_simps [simp]:
  "then_run (evs, None) b = (evs @ fst b, snd b)"
  "then_run (evs, Some e) b = (evs, Some e)"
  by (simp_all add: then_run_def)

lemma then_run_Nil [simp]: "then_run ([], None) b = b"
  by simp

lemma then_run_assoc: "then_run (then_run a b) c = then_run a (then_run b c)"
  by (cases a; cases b; cases c) (auto simp: then_run_def split: option.splits)

lemma publish_loop_append:
  "publish_loop name_order atts (xs @ ys) =
   then_run (publish_loop name_order atts xs) (publish_loop name_order atts ys)"
  by (induction xs) (simp_all add: then_run_assoc)

lemma publish_loop_rejected:
  "publish_loop name_order atts ps =
   publish_loop name_order atts (filter (\<lambda>p. result_id p \<noteq> Some (- 1)) ps)"
  by (induction ps) simp_all

lemma send_each_texts:
  "\<forall>a \<in> set as. att_text a \<noteq> None \<Longrightarrow>
   send_each (\<lambda>a. send_attachment a p) as =
     (map (\<lambda>a. Create_test_result_attachment (att_name a) (the (att_text a)) (result_id p)) as,
      None)"
  by (induction as) (auto simp: send_attachment_def)

lemma send_each_sub_texts:
  "\<forall>a \<in> set as. att_text a \<noteq> None \<Longrightarrow>
   send_each (\<lambda>a. send_sub_attachment a p i) as =
     (map (\<lambda>a. Create_test_sub_result_attachment (att_name a) (the (att_text a))
                 (result_id p) i) as,
      None)"
  by (induction as) (auto simp: send_sub_attachment_def)

lemma send_each_error:
  "snd (send_each (\<lambda>a. send_attachment a p) as) = None \<or>
   snd (send_each (\<lambda>a. send_attachment a p) as) = Some TypeError"
  by (induction as) (auto simp: send_attachment_def then_run_def split: option.splits)

lemma send_each_sub_error:
  "snd (send_each (\<lambda>a. send_sub_attachment a p i) as) = None \<or>
   snd (send_each (\<lambda>a. send_sub_attachment a p i) as) = Some TypeError"
  by (induction as) (auto simp: send_sub_attachment_def then_run_def split: option.splits)

lemma send_each_only_results:
  "Create_test_sub_result_attachment f t i j \<notin> set (fst (send_each (\<lambda>a. send_attachment a p) as))"
  by (induction as) (auto simp: send_attachment_def then_run_def split: option.splits)

lemma pair_loop_error:
  "snd (pair_loop atts p zs) = None \<or> snd (pair_loop atts p zs) = Some TypeError"
proof (induction zs)
  case Nil
  then show ?case by simp
next
  case (Cons z zs)
  have "snd (pair_attachments atts p z) = None \<or> snd (pair_attachments atts p z) = Some TypeError"
    using send_each_sub_error by (simp add: pair_attachments_def split: option.splits)
  with Cons show ?case by (auto simp: then_run_def split: option.splits)
qed

text \<open>What is sent for a pair when every attachment has a text.\<close>

lemma pair_loop_texts:
  "\<forall>(n, sub) \<in> set zs. \<forall>r. atts n = Some r \<longrightarrow> (\<forall>a \<in> set (attachments r). att_text a \<noteq> None) \<Longrightarrow>
   pair_loop atts p zs =
     (concat (map (\<lambda>(n, sub). case atts n of
                      None \<Rightarrow> []
                    | Some r \<Rightarrow>
                        map (\<lambda>a. Create_test_sub_result_attachment (att_name a)
                                   (the (att_text a)) (result_id p) (sr_id sub))
                          (attachments r)) zs),
      None)"
proof (induction zs)
  case Nil
  then show ?case by simp
next
  case (Cons z zs)
  obtain n sub where z: "z = (n, sub)" by (cases z)
  from Cons.prems have rest: "\<forall>(n, sub) \<in> set zs. \<forall>r. atts n = Some r \<longrightarrow>
      (\<forall>a \<in> set (attachments r). att_text a \<noteq> None)" by simp
  note IH = Cons.IH [OF rest]
  show ?case
  proof (cases "atts n")
    case None
    with IH z show ?thesis by (simp add: pair_attachments_def)
  next
    case (Some r)
    with Cons.prems z have "\<forall>a \<in> set (attachments r). att_text a \<noteq> None" by auto
    from send_each_sub_texts [OF this] IH z Some show ?thesis
      by (simp add: pair_attachments_def)
  qed
qed

lemma with_attachments_snoc:
  "with_attachments (rs @ [ro]) =
     (case ro of
        None \<Rightarrow> with_attachments rs
      | Some r \<Rightarrow> if attachments r \<noteq> [] then (with_attachments rs)(name r \<mapsto> r)
                   else with_attachments rs)"
  by (cases ro) (simp_all add: with_attachments_def)

text \<open>The attachment map holds, for a name, the last record of that name with attachments.\<close>

lemma with_attachments_last:
  "with_attachments rs k =
     (if filter (\<lambda>r. name r = k \<and> attachments r \<noteq> []) (present rs) = [] then None
      else Some (last (filter (\<lambda>r. name r = k \<and> attachments r \<noteq> []) (present rs))))"
proof (induction rs rule: rev_induct)
  case Nil
  then show ?case by (simp add: with_attachments_def)
next
  case (snoc ro rs)
  then show ?case by (cases ro) (auto simp: with_attachments_snoc)
qed

lemma with_attachments_present:
  assumes "with_attachments rs k = Some r"
  shows "r \<in> set (present rs) \<and> name r = k \<and> attachments r \<noteq> []"
proof -
  let ?xs = "filter (\<lambda>r. name r = k \<and> attachments r \<noteq> []) (present rs)"
  from assms have ne: "?xs \<noteq> []" and r: "r = last ?xs"
    by (auto simp: with_attachments_last split: if_splits)
  from ne have "last ?xs \<in> set ?xs" by (rule last_in_set)
  with r show ?thesis by auto
qed

lemma loop_body_dom:
  assumes "loop_body self ro s = Inr s'"
  shows "dom (test_name_ordering s) \<subseteq> dom (test_name_ordering s')"
  using assms by (cases rule: loop_body_cases) auto

lemma loop_standalone_indexed:
  "convert_loop self rs start = Inr s \<Longrightarrow> r \<in> set (standalone rs) \<Longrightarrow>
   name r \<in> dom (test_name_ordering s)"
proof (induction rs arbitrary: s rule: rev_induct)
  case Nil
  then show ?case by simp
next
  case (snoc ro rs)
  from snoc.prems(1) obtain s0 where s0: "convert_loop self rs start = Inr s0"
    and step: "loop_body self ro s0 = Inr s" by (rule convert_loop_snocE)
  show ?case
  proof (cases "r \<in> set (standalone rs)")
    case True
    from snoc.IH [OF s0 True] loop_body_dom [OF step] show ?thesis by blast
  next
    case False
    with snoc.prems(2) have ro: "ro = Some r" and sa: "\<not> is_data_driven_test (name r)"
      by (cases ro; auto split: if_splits)+
    with step show ?thesis by (auto simp: loop_body_def)
  qed
qed

text \<open>Every node that \<^verbatim>\<open>convert_results\<close> returns has an entry in the ordering index.\<close>

lemma node_names_indexed:
  assumes "convert_results self rs = Inr (nodes, name_order)" "Some n \<in> set nodes"
  shows "name_order (automated_test_name n) \<noteq> None"
proof -
  from assms(1) obtain s where s: "convert_loop self rs start = Inr s" "well_formed s"
    "nodes = map (Some \<circ> snd) (data_driven_tests s) @ non_data_driven_tests s"
    "name_order = test_name_ordering s"
    by (rule convert_results_Inr)
  from assms(2) s(3) consider k where "(k, n) \<in> set (data_driven_tests s)"
    | "Some n \<in> set (non_data_driven_tests s)" by auto
  then show ?thesis
  proof cases
    case 1
    with group_key [OF s(1) 1] s(2) show ?thesis
      unfolding s(4) by (auto simp: well_formed_def)
  next
    case 2
    then obtain r where r: "r \<in> set (standalone rs)" "convert_result self r = Some n"
      unfolding loop_standalone [OF s(1)] by auto
    from r(2) have "automated_test_name n = name r" by (simp add: standalone_node_plain)
    with loop_standalone_indexed [OF s(1) r(1)] show ?thesis unfolding s(4) by auto
  qed
qed

lemma attach_to_texts:
  assumes "\<forall>r \<in> ran atts. \<forall>a \<in> set (attachments r). att_text a \<noteq> None"
    and "atts (automated_test_name p) = None \<and> sub_results p \<noteq> None \<longrightarrow>
           name_order (automated_test_name p) \<noteq> None"
  shows "snd (attach_to name_order atts p) = None"
proof (cases "atts (automated_test_name p)")
  case (Some r)
  then have "r \<in> ran atts" by (auto simp: ran_def)
  with assms(1) have "\<forall>a \<in> set (attachments r). att_text a \<noteq> None" by blast
  from send_each_texts [OF this] Some show ?thesis by (simp add: attach_to_def)
next
  case None
  show ?thesis
  proof (cases "sub_results p")
    case n: None
    with None show ?thesis by (simp add: attach_to_def)
  next
    case (Some subs)
    with None assms(2) obtain names where names: "name_order (automated_test_name p) = Some names"
      by auto
    have "\<forall>(n, sub) \<in> set (zip names subs). \<forall>r. atts n = Some r \<longrightarrow>
        (\<forall>a \<in> set (attachments r). att_text a \<noteq> None)"
      using assms(1) by (auto simp: ran_def)
    from pair_loop_texts [OF this] None Some names show ?thesis
      by (simp add: attach_to_def)
  qed
qed

lemma publish_loop_accepted:
  "\<forall>p \<in> set ps. result_id p \<noteq> Some (- 1) \<and> snd (attach_to name_order atts p) = None \<Longrightarrow>
   publish_loop name_order atts ps =
     (concat (map (\<lambda>p. fst (attach_to name_order atts p)) ps), None)"
proof (induction ps)
  case Nil
  then show ?case by simp
next
  case (Cons p ps)
  then have "attach_to name_order atts p = (fst (attach_to name_order atts p), None)"
    by (simp add: prod_eq_iff)
  then have "then_run (attach_to name_order atts p) (publish_loop name_order atts ps) =
     (fst (attach_to name_order atts p) @ fst (publish_loop name_order atts ps),
      snd (publish_loop name_order atts ps))"
    by (metis then_run_simps(1))
  with Cons show ?case by simp
qed


text \<open>
  C5, as it holds. Take a published result that the pass reaches, the results before it
  having raised nothing; that was accepted; whose own name is not a key of the attachment
  map; and that has sub-results and an ordering entry. When the entry and the sub-results
  differ in length, the pass logs the warning and then pairs the names with the
  sub-results by position, up to the shorter of the two, and goes on with the results
  that follow. The mismatch raises nothing: the pairing can only end with the
  \<^verbatim>\<open>TypeError\<close> of an attachment without text, and when the attachments of the paired
  records all have a text it sends each of them to the sub-result paired with its name.
\<close>

theorem length_mismatch_warns_and_zips:
  assumes "service nodes = pre @ p # rest"
    and "snd (publish_loop name_order atts pre) = None"
    and "result_id p \<noteq> Some (- 1)"
    and "atts (automated_test_name p) = None"
    and "sub_results p = Some subs"
    and "name_order (automated_test_name p) = Some names"
    and "length names \<noteq> length subs"
  shows "publish_results service nodes name_order atts =
           then_run
             (fst (publish_loop name_order atts pre) @
                [Warning ''Returned subresults list length does not match expected. Attachments may not pair correctly.''],
              None)
             (then_run (pair_loop atts p (zip names subs))
                (publish_loop name_order atts rest)) \<and>
         length (zip names subs) = min (length names) (length subs) \<and>
         (snd (pair_loop atts p (zip names subs)) = None \<or>
          snd (pair_loop atts p (zip names subs)) = Some TypeError) \<and>
         ((\<forall>(n, sub) \<in> set (zip names subs). \<forall>r. atts n = Some r \<longrightarrow>
              (\<forall>a \<in> set (attachments r). att_text a \<noteq> None)) \<longrightarrow>
          pair_loop atts p (zip names subs) =
            (concat (map (\<lambda>(n, sub). case atts n of
                             None \<Rightarrow> []
                           | Some r \<Rightarrow>
                               map (\<lambda>a. Create_test_sub_result_attachment (att_name a)
                                          (the (att_text a)) (result_id p) (sr_id sub))
                                 (attachments r))
                       (zip names subs)),
             None))"
proof -
  let ?w = "Warning ''Returned subresults list length does not match expected. Attachments may not pair correctly.''"
  from assms(2) have pre: "publish_loop name_order atts pre =
      (fst (publish_loop name_order atts pre), None)"
    by (simp add: prod_eq_iff)
  have own: "attach_to name_order atts p = then_run ([?w], None) (pair_loop atts p (zip names subs))"
    using assms(4-7) by (simp add: attach_to_def)
  have "publish_loop name_order atts (pre @ p # rest) =
      then_run (publish_loop name_order atts pre)
        (then_run (attach_to name_order atts p) (publish_loop name_order atts rest))"
    using assms(3) by (simp add: publish_loop_append)
  also have "\<dots> = then_run (fst (publish_loop name_order atts pre), None)
        (then_run (then_run ([?w], None) (pair_loop atts p (zip names subs)))
           (publish_loop name_order atts rest))"
    using pre own by simp
  also have "\<dots> = then_run (fst (publish_loop name_order atts pre) @ [?w], None)
        (then_run (pair_loop atts p (zip names subs)) (publish_loop name_order atts rest))"
    by (simp add: then_run_def split: option.splits)
  finally have 1: "publish_results service nodes name_order atts =
      then_run (fst (publish_loop name_order atts pre) @ [?w], None)
        (then_run (pair_loop atts p (zip names subs)) (publish_loop name_order atts rest))"
    using assms(1) by (simp add: publish_results_def)
  have 2: "length (zip names subs) = min (length names) (length subs)" by simp
  note 3 = pair_loop_error [of atts p "zip names subs"]
  from 1 2 3 pair_loop_texts [of "zip names subs" atts p] show ?thesis by blast
qed


section \<open>Instances\<close>

lemmas run_defs = convert_results_def start_def loop_body_def convert_result_def
  convert_to_sub_test_def is_data_driven_test_def endswith_def get_ddt_base_name_def
  example_record_def Let_def

lemmas batch_defs = standalone_def converted_variants_def variants_of_def present_def
  recognized_def first_seen_def

text \<open>
  The example of the specification: two variants of \<open>T.A\<close>, the second failed, and a
  standalone \<open>T.B\<close>. The group \<open>T.A\<close> is failed.
\<close>

theorem grouped_outcome_follows_sub_results_witness:
  "\<exists>nodes name_order n subs.
     convert_results example_publisher
       [Some (example_record ''T.A(1)'' ''Pass'' []), Some (example_record ''T.A(2)'' ''Fail'' []),
        Some (example_record ''T.B'' ''Pass'' [])] = Inr (nodes, name_order) \<and>
     Some n \<in> set nodes \<and> automated_test_name n = ''T.A'' \<and> sub_results n = Some subs \<and>
     subs \<noteq> [] \<and> map sr_outcome subs = [''Passed'', ''Failed''] \<and> outcome n = ''Failed''"
proof -
  let ?rs = "[Some (example_record ''T.A(1)'' ''Pass'' []),
              Some (example_record ''T.A(2)'' ''Fail'' []),
              Some (example_record ''T.B'' ''Pass'' [])]"
  obtain nodes name_order
    where run: "convert_results example_publisher ?rs = Inr (nodes, name_order)"
    using convert_results_total by blast
  have nodes: "nodes = fst (projr (convert_results example_publisher ?rs))"
    by (simp add: run)
  define n where "n = the (hd nodes)"
  define subs where "subs = the (sub_results n)"
  have mem: "Some n \<in> set nodes" unfolding n_def nodes by (simp add: run_defs)
  have nm: "automated_test_name n = ''T.A''" unfolding n_def nodes by (simp add: run_defs)
  have sub: "sub_results n = Some subs" unfolding subs_def n_def nodes by (simp add: run_defs)
  have outs: "map sr_outcome subs = [''Passed'', ''Failed'']"
    unfolding subs_def n_def nodes by (simp add: run_defs)
  then have ne: "subs \<noteq> []" by auto
  from outs have "''Failed'' \<in> set (map sr_outcome subs)" by simp
  then have ex: "\<exists>x \<in> set subs. sr_outcome x = ''Failed''" by auto
  from grouped_outcome_follows_sub_results [OF run mem sub ne]
  have "outcome n = ''Failed'' \<longleftrightarrow> (\<exists>x \<in> set subs. sr_outcome x = ''Failed'')" by blast
  with ex have failed: "outcome n = ''Failed''" by simp
  show ?thesis
    by (rule exI conjI run mem nm sub ne outs failed)+
qed

theorem ordering_entry_lists_converted_variants_witness:
  "\<exists>nodes name_order.
     convert_results example_publisher
       [Some (example_record ''T.A(1)'' ''Pass'' []), Some (example_record ''T.B'' ''Pass'' []),
        Some (example_record ''T.A(2)'' ''Fail'' [])] = Inr (nodes, name_order) \<and>
     name_order ''T.A'' = Some [''T.A(1)'', ''T.A(2)'']"
proof -
  let ?rs = "[Some (example_record ''T.A(1)'' ''Pass'' []),
              Some (example_record ''T.B'' ''Pass'' []),
              Some (example_record ''T.A(2)'' ''Fail'' [])]"
  obtain nodes name_order
    where run: "convert_results example_publisher ?rs = Inr (nodes, name_order)"
    using convert_results_total by blast
  have h: "\<forall>r \<in> set (standalone ?rs). name r \<noteq> ''T.A''"
    by (simp add: run_defs batch_defs)
  have v: "map name (variants_of ?rs ''T.A'') = [''T.A(1)'', ''T.A(2)'']"
    by (simp add: run_defs batch_defs)
  then have "variants_of ?rs ''T.A'' \<noteq> []" by auto
  with ordering_entry_lists_converted_variants [OF run h] v
  have entry: "name_order ''T.A'' = Some [''T.A(1)'', ''T.A(2)'']" by simp
  show ?thesis
    by (rule exI conjI run entry)+
qed

text \<open>
  The entry of a base name is not always the list of all its variants. A standalone
  record named like the base name empties the entry, here after \<open>T.A(1)\<close>; and a variant
  whose result is not recognized never enters it.
\<close>

theorem ordering_entry_counterexample:
  "snd (projr (convert_results example_publisher
       [Some (example_record ''T.A(1)'' ''Pass'' []), Some (example_record ''T.A'' ''Pass'' []),
        Some (example_record ''T.A(2)'' ''Pass'' [])])) ''T.A'' = Some [''T.A(2)''] \<and>
   snd (projr (convert_results example_publisher
       [Some (example_record ''T.A(1)'' ''Bogus'' []),
        Some (example_record ''T.A(2)'' ''Pass'' [])])) ''T.A'' = Some [''T.A(2)'']"
  by (simp add: run_defs)

theorem groups_first_then_standalone_witness:
  "\<exists>groups rest name_order.
     convert_results example_publisher
       [Some (example_record ''T.A(1)'' ''Bogus'' []), Some (example_record ''T.B(1)'' ''Pass'' []),
        Some (example_record ''T.C'' ''Pass'' []), Some (example_record ''T.A(2)'' ''Pass'' [])]
       = Inr (map Some groups @ rest, name_order) \<and>
     map automated_test_name groups = [''T.B'', ''T.A''] \<and>
     map (map_option automated_test_name) rest = [Some ''T.C'']"
proof -
  let ?rs = "[Some (example_record ''T.A(1)'' ''Bogus'' []),
              Some (example_record ''T.B(1)'' ''Pass'' []),
              Some (example_record ''T.C'' ''Pass'' []),
              Some (example_record ''T.A(2)'' ''Pass'' [])]"
  from groups_first_then_standalone [of example_publisher ?rs]
  obtain groups rest name_order where
    run: "convert_results example_publisher ?rs = Inr (map Some groups @ rest, name_order)"
    and names: "map automated_test_name groups =
       first_seen (map (\<lambda>r. get_ddt_base_name (name r)) (converted_variants ?rs))"
    by blast
  have "first_seen (map (\<lambda>r. get_ddt_base_name (name r)) (converted_variants ?rs)) =
        [''T.B'', ''T.A'']"
    by (simp add: run_defs batch_defs)
  with names have g: "map automated_test_name groups = [''T.B'', ''T.A'']" by simp
  then have "length groups = 2" by (metis length_map length_Cons list.size(3) numeral_2_eq_2)
  moreover have "map Some groups @ rest = fst (projr (convert_results example_publisher ?rs))"
    by (simp add: run)
  ultimately have "rest = drop 2 (fst (projr (convert_results example_publisher ?rs)))"
    by (metis append_eq_conv_conj length_map)
  then have r: "map (map_option automated_test_name) rest = [Some ''T.C'']"
    by (simp add: run_defs)
  show ?thesis
    by (rule exI conjI run g r)+
qed

text \<open>
  The groups are not in the order in which their base names first occur in the batch:
  \<open>T.A\<close> occurs first, with a result that is not recognized, and its group comes after
  that of \<open>T.B\<close>.
\<close>

theorem node_order_counterexample:
  "map (map_option automated_test_name)
     (fst (projr (convert_results example_publisher
       [Some (example_record ''T.A(1)'' ''Bogus'' []), Some (example_record ''T.B(1)'' ''Pass'' []),
        Some (example_record ''T.A(2)'' ''Pass'' [])]))) = [Some ''T.B'', Some ''T.A''] \<and>
   first_seen (map (get_ddt_base_name \<circ> name) (present
       [Some (example_record ''T.A(1)'' ''Bogus'' []), Some (example_record ''T.B(1)'' ''Pass'' []),
        Some (example_record ''T.A(2)'' ''Pass'' [])])) = [''T.A'', ''T.B'']"
  by (simp add: run_defs batch_defs)

theorem first_variant_seeds_group_witness:
  "\<exists>s'. convert_loop example_publisher
       ([Some (example_record ''T.A(1)'' ''Bogus'' []), Some (example_record ''T.A'' ''Pass'' [])]
        @ [Some (example_record ''T.A(2)'' ''Pass'' [])]) start = Inr s' \<and>
     map fst (data_driven_tests s') = [''T.A''] \<and>
     map (result_group_type \<circ> snd) (data_driven_tests s') = [Some ''dataDriven''] \<and>
     test_name_ordering s' ''T.A'' = Some [''T.A(2)'']"
proof -
  let ?pre = "[Some (example_record ''T.A(1)'' ''Bogus'' []),
               Some (example_record ''T.A'' ''Pass'' [])]"
  let ?r = "example_record ''T.A(2)'' ''Pass'' []"
  obtain s where s: "convert_loop example_publisher ?pre start = Inr s"
    using convert_loop_total [OF well_formed_start] by blast
  have s_eq: "s = projr (convert_loop example_publisher ?pre start)" unfolding s by simp
  have d: "data_driven_tests s = []" unfolding s_eq by (simp add: run_defs)
  have h2: "is_data_driven_test (name ?r)" by (simp add: run_defs)
  have h3: "result ?r = ''Pass'' \<or> result ?r = ''Fail'' \<or> result ?r = ''Skip''"
    by (simp add: run_defs)
  have h4: "get_ddt_base_name (name ?r) \<notin> fst ` set (data_driven_tests s)" by (simp add: d)
  have b: "get_ddt_base_name (name ?r) = ''T.A''" by (simp add: run_defs)
  from first_variant_seeds_group [OF s h2 h3 h4] d b show ?thesis
    by (auto simp: example_record_def)
qed

text \<open>
  C6. A record whose result is not recognized should yield no node and no sub-result on
  any path, and the batch should go on. The loop does go on, and a data-driven record
  with such a result leaves no trace. A standalone record with such a result is not
  skipped: the list of nodes receives \<^verbatim>\<open>None\<close> for it, and the ordering index an
  entry, since the standalone path appends what \<^verbatim>\<open>convert_result\<close> returns without
  the test for \<^verbatim>\<open>None\<close> that the two data-driven paths make.
\<close>

theorem unrecognized_standalone_leaves_entry:
  "convert_results example_publisher [Some (example_record ''T.B'' ''Bogus'' [])] =
     Inr ([None], [''T.B'' \<mapsto> []]) \<and>
   convert_results example_publisher [Some (example_record ''T.A(1)'' ''Bogus'' [])] =
     Inr ([], Map.empty)"
  by (simp add: run_defs)

lemmas publish_defs = upload_batch_def publish_results_def attach_to_def pair_attachments_def
  send_attachment_def send_sub_attachment_def with_attachments_def example_published_def
  example_sub_def console_output_def empty_output_def example_record_def



theorem length_mismatch_warns_and_zips_witness:
  "publish_results
     (\<lambda>nodes. [example_published ''T.S'' 5 None,
               example_published ''T.G'' 7 (Some [example_sub 1])]) []
     [''T.S'' \<mapsto> [], ''T.G'' \<mapsto> [''T.G(1)'', ''T.G(2)'']]
     [''T.G(1)'' \<mapsto> example_record ''T.G(1)'' ''Fail'' [console_output],
      ''T.G(2)'' \<mapsto> example_record ''T.G(2)'' ''Fail'' [console_output]] =
   ([Warning ''Returned subresults list length does not match expected. Attachments may not pair correctly.'',
     Create_test_sub_result_attachment ''Console_Output.log'' ''out'' (Some 7) (Some 1)], None)"
proof -
  let ?q = "example_published ''T.S'' 5 None"
  let ?p = "example_published ''T.G'' 7 (Some [example_sub 1])"
  let ?order = "[''T.S'' \<mapsto> [], ''T.G'' \<mapsto> [''T.G(1)'', ''T.G(2)'']]"
  let ?atts = "[''T.G(1)'' \<mapsto> example_record ''T.G(1)'' ''Fail'' [console_output],
      ''T.G(2)'' \<mapsto> example_record ''T.G(2)'' ''Fail'' [console_output]]"
  have h1: "(\<lambda>nodes. [?q, ?p]) [] = [?q] @ ?p # []" by simp
  have h2: "snd (publish_loop ?order ?atts [?q]) = None"
    by (simp add: publish_defs)
  have h3: "result_id ?p \<noteq> Some (- 1)" by (simp add: example_published_def)
  have h4: "?atts (automated_test_name ?p) = None" by (simp add: example_published_def)
  have h5: "sub_results ?p = Some [example_sub 1]" by (simp add: example_published_def)
  have h6: "?order (automated_test_name ?p) = Some [''T.G(1)'', ''T.G(2)'']"
    by (simp add: example_published_def)
  have h7: "length [''T.G(1)'', ''T.G(2)''] \<noteq> length [example_sub 1]" by simp
  from length_mismatch_warns_and_zips [of "\<lambda>nodes. [?q, ?p]" "[]" "[?q]" ?p "[]" ?order ?atts "[example_sub 1]"
      "[''T.G(1)'', ''T.G(2)'']", OF h1 h2 h3 h4 h5 h6 h7]
  show ?thesis by (simp add: publish_defs)
qed

text \<open>
  A result with sub-results and an ordering entry of another length does not always give
  a warning. The batches below each give the group \<open>T.G\<close> an entry of two names, and the
  service returns it with one sub-result. Nothing is logged when the service rejected the
  group; and nothing when a record \<open>T.G\<close> of the batch carried an attachment, since the
  exact name is tested first.
\<close>

theorem length_mismatch_counterexample:
  "upload_batch (\<lambda>nodes. [example_published ''T.G'' (- 1) (Some [example_sub 1])])
     example_publisher
     [Some (example_record ''T.G(1)'' ''Fail'' [console_output]),
      Some (example_record ''T.G(2)'' ''Pass'' [])] = ([], None) \<and>
   snd (projr (convert_results example_publisher
     [Some (example_record ''T.G'' ''Fail'' [console_output]),
      Some (example_record ''T.G(1)'' ''Pass'' []),
      Some (example_record ''T.G(2)'' ''Pass'' [])])) ''T.G'' = Some [''T.G(1)'', ''T.G(2)''] \<and>
   upload_batch (\<lambda>nodes. [example_published ''T.G'' 7 (Some [example_sub 1])])
     example_publisher
     [Some (example_record ''T.G'' ''Fail'' [console_output]),
      Some (example_record ''T.G(1)'' ''Pass'' []),
      Some (example_record ''T.G(2)'' ''Pass'' [])] =
   ([Debug ''Result T.G has an attachment'',
     Create_test_result_attachment ''Console_Output.log'' ''out'' (Some 7)], None)"
  by (simp add: publish_defs run_defs)



end
